theory Spec2Isabelle
  imports
    Main
    "HOL-Library.AList"
    "HOL-Library.Multiset"
    "HOL-Library.Char_ord"
    "HOL-Library.List_Lexorder"
begin

section \<open>Values, errors and the HTTP session\<close>

text \<open>
  The script \<^verbatim>\<open>gitlabprojects.py\<close> handles whatever \<^verbatim>\<open>r.json()\<close> decodes: Python lists,
  dicts, strings, numbers, booleans and \<^verbatim>\<open>None\<close>. A dict is an association list with
  distinct keys, in insertion order. Numbers are the integers; a JSON number with a
  fraction is not part of this model. Strings are byte strings, so the model is about
  ASCII text where a length or an order of strings matters.
\<close>

datatype json =
    JNull
  | JBool bool
  | JNum int
  | JStr string
  | JArr "json list"
  | JObj "(string \<times> json) list"

text \<open>
  The exceptions the script can meet. \<open>RequestException\<close> stands for what
  \<^verbatim>\<open>session.get\<close> raises itself (connection failure, timeout); \<open>HTTPError\<close> is raised
  by \<^verbatim>\<open>raise_for_status\<close> and carries the status; \<open>JSONDecodeError\<close> is raised by
  \<^verbatim>\<open>r.json()\<close> on a body that is not JSON.
\<close>

datatype error =
    RequestException
  | HTTPError nat
  | JSONDecodeError
  | KeyError string
  | TypeError
  | AttributeError

text \<open>
  The two f-strings that build a URL are kept as their arguments: the listing URL
  \<^verbatim>\<open>f"{base}/projects"\<close> and the commit URL
  \<^verbatim>\<open>f"{base}/projects/{project_id}/repository/commits"\<close>.
\<close>

datatype url =
    ProjectsUrl string
  | CommitsUrl string json

record request =
  url :: url
  params :: "(string \<times> json) list"
  timeout :: nat

text \<open>
  \<^verbatim>\<open>session.get\<close> either raises or returns a response: a status code and a body, which
  is \<open>None\<close> when the body does not decode as JSON. The remote server and the network
  are a parameter \<open>srv\<close> of every function that sends a request. The session's
  \<^verbatim>\<open>PRIVATE-TOKEN\<close> header is the same on every request and is left out.
\<close>

datatype http_result =
    Raised error
  | Response nat "json option"

type_synonym server = "request \<Rightarrow> http_result"

record config =
  base :: string
  username :: string

text \<open>Truth value of a decoded body, as \<^verbatim>\<open>if data:\<close> and \<^verbatim>\<open>bool(r.json())\<close> take it.\<close>

fun py_truthy :: "json \<Rightarrow> bool" where
  "py_truthy JNull = False"
| "py_truthy (JBool b) = b"
| "py_truthy (JNum n) = (n \<noteq> 0)"
| "py_truthy (JStr s) = (s \<noteq> [])"
| "py_truthy (JArr xs) = (xs \<noteq> [])"
| "py_truthy (JObj kvs) = (kvs \<noteq> [])"

text \<open>\<^verbatim>\<open>len(data)\<close>: defined on lists, dicts and strings, a \<^verbatim>\<open>TypeError\<close> otherwise.\<close>

fun py_len :: "json \<Rightarrow> error + nat" where
  "py_len (JArr xs) = Inr (length xs)"
| "py_len (JObj kvs) = Inr (length kvs)"
| "py_len (JStr s) = Inr (length s)"
| "py_len _ = Inl TypeError"

text \<open>
  The items \<^verbatim>\<open>results.extend(data)\<close> appends: the elements of a list, the keys of a
  dict, the characters of a string.
\<close>

fun py_iter :: "json \<Rightarrow> error + json list" where
  "py_iter (JArr xs) = Inr xs"
| "py_iter (JObj kvs) = Inr (map (\<lambda>kv. JStr (fst kv)) kvs)"
| "py_iter (JStr s) = Inr (map (\<lambda>c. JStr [c]) s)"
| "py_iter _ = Inl TypeError"

text \<open>\<^verbatim>\<open>p[key]\<close>: a \<^verbatim>\<open>KeyError\<close> on a dict without the key, a \<^verbatim>\<open>TypeError\<close> on any other value.\<close>

fun py_getitem :: "json \<Rightarrow> string \<Rightarrow> error + json" where
  "py_getitem (JObj kvs) k = (case map_of kvs k of None \<Rightarrow> Inl (KeyError k) | Some v \<Rightarrow> Inr v)"
| "py_getitem _ k = Inl TypeError"

text \<open>\<^verbatim>\<open>p.get(key, default)\<close>: only a dict has the method.\<close>

fun py_get :: "json \<Rightarrow> string \<Rightarrow> json \<Rightarrow> error + json" where
  "py_get (JObj kvs) k d = (case map_of kvs k of None \<Rightarrow> Inr d | Some v \<Rightarrow> Inr v)"
| "py_get _ k d = Inl AttributeError"

section \<open>The commit probe\<close>

text \<open>
  \<^verbatim>\<open>
  def has_user_commits(project_id):
      r = session.get(f"{base}/projects/{project_id}/repository/commits",
                      params={"author": username, "per_page": 1}, timeout=10)
      if r.status_code == 200 and r.json():
          return True
      r = session.get(f"{base}/projects/{project_id}/repository/commits",
                      params={"all": "true", "per_page": 1, "author": username}, timeout=10)
      return r.status_code == 200 and bool(r.json())
  \<close>
  The model returns the requests sent, in order, with the value returned or the
  exception raised.
\<close>

definition primary_request :: "config \<Rightarrow> json \<Rightarrow> request" where
  "primary_request cfg project_id =
     \<lparr>url = CommitsUrl (base cfg) project_id,
      params = [(''author'', JStr (username cfg)), (''per_page'', JNum 1)],
      timeout = 10\<rparr>"

definition fallback_request :: "config \<Rightarrow> json \<Rightarrow> request" where
  "fallback_request cfg project_id =
     \<lparr>url = CommitsUrl (base cfg) project_id,
      params = [(''all'', JStr ''true''), (''per_page'', JNum 1), (''author'', JStr (username cfg))],
      timeout = 10\<rparr>"

text \<open>
  \<^verbatim>\<open>r.status_code == 200 and r.json()\<close> as a truth value: \<^verbatim>\<open>and\<close> does not evaluate
  \<^verbatim>\<open>r.json()\<close> when the status is not 200.
\<close>

definition status_and_json :: "nat \<Rightarrow> json option \<Rightarrow> error + bool" where
  "status_and_json st body =
     (if st = 200
      then (case body of None \<Rightarrow> Inl JSONDecodeError | Some j \<Rightarrow> Inr (py_truthy j))
      else Inr False)"

definition has_user_commits :: "config \<Rightarrow> server \<Rightarrow> json \<Rightarrow> request list \<times> (error + bool)" where
  "has_user_commits cfg srv project_id =
     (let r1 = primary_request cfg project_id in
      case srv r1 of
        Raised e \<Rightarrow> ([r1], Inl e)
      | Response st body \<Rightarrow>
          (case status_and_json st body of
             Inl e \<Rightarrow> ([r1], Inl e)
           | Inr True \<Rightarrow> ([r1], Inr True)
           | Inr False \<Rightarrow>
               (let r2 = fallback_request cfg project_id in
                case srv r2 of
                  Raised e \<Rightarrow> ([r1, r2], Inl e)
                | Response st2 body2 \<Rightarrow> ([r1, r2], status_and_json st2 body2))))"

section \<open>The page fetcher and the paginator\<close>

text \<open>
  \<^verbatim>\<open>
  def fetch_page(url, params, page):
      p = {**params, "page": page}
      r = session.get(url, params=p, timeout=30)
      r.raise_for_status()
      return page, r.json()
  \<close>
  \<^verbatim>\<open>{**params, "page": page}\<close> replaces the value of an existing key in place and appends
  a new key at the end, which is what \<open>AList.update\<close> does.
\<close>

definition page_request :: "url \<Rightarrow> (string \<times> json) list \<Rightarrow> nat \<Rightarrow> request" where
  "page_request u ps page =
     \<lparr>url = u, params = AList.update ''page'' (JNum (int page)) ps, timeout = 30\<rparr>"

text \<open>
  \<^verbatim>\<open>Response.raise_for_status\<close> of the requests library raises \<^verbatim>\<open>HTTPError\<close> for a client
  error (400 to 499) and for a server error (500 to 599), and for no other status.
\<close>

definition raise_for_status :: "nat \<Rightarrow> error + unit" where
  "raise_for_status st = (if 400 \<le> st \<and> st < 600 then Inl (HTTPError st) else Inr ())"

definition fetch_page :: "server \<Rightarrow> url \<Rightarrow> (string \<times> json) list \<Rightarrow> nat \<Rightarrow> error + nat \<times> json" where
  "fetch_page srv u ps page =
     (case srv (page_request u ps page) of
        Raised e \<Rightarrow> Inl e
      | Response st body \<Rightarrow>
          (case raise_for_status st of
             Inl e \<Rightarrow> Inl e
           | Inr _ \<Rightarrow> (case body of None \<Rightarrow> Inl JSONDecodeError | Some j \<Rightarrow> Inr (page, j))))"

text \<open>
  What the script prints to \<^verbatim>\<open>sys.stderr\<close> while it works, one value per line, with the
  values the line is formatted from: \<open>PageLine pg n\<close> is \<^verbatim>\<open>"  page {pg} ({n} items)"\<close>;
  the other three are the lines of the probe loop, with the counter, the number of
  projects, the value of \<^verbatim>\<open>p['path_with_namespace']\<close> and, for a failure, the exception.
\<close>

datatype line =
    PageLine nat nat
  | Matched nat nat json
  | NotMatched nat nat json
  | Failed nat nat json error

text \<open>
  A stage of the script: the requests its tasks send, the lines it prints, and the
  value it ends with or the exception that leaves it.
\<close>

record 'a run =
  sent :: "request list"
  printed :: "line list"
  outcome :: "error + 'a"

definition MAX_PAGES :: nat where
  "MAX_PAGES = 200"

text \<open>
  \<^verbatim>\<open>
  def get_all_pages(url, params):
      MAX_PAGES = 200  # speculative upper bound
      results = []
      with ThreadPoolExecutor(max_workers=20) as pool:
          futures = {pool.submit(fetch_page, url, params, p): p for p in range(1, MAX_PAGES + 1)}
          for future in as_completed(futures):
              pg, data = future.result()
              if data:
                  print(f"  page {pg} ({len(data)} items)", file=sys.stderr)
                  results.extend(data)
      return results
  \<close>
  The loop body runs in the main thread only, once per future, in the order in which
  the futures complete. That order is the parameter \<open>order\<close>: the page numbers of the
  submitted tasks, each once, in completion order. \<open>fut p\<close> is what \<^verbatim>\<open>future.result()\<close>
  gives for the task of page \<open>p\<close>: the value returned or the exception re-raised.
\<close>

fun collect_pages ::
  "(nat \<Rightarrow> error + nat \<times> json) \<Rightarrow> nat list \<Rightarrow> line list \<Rightarrow> json list
     \<Rightarrow> line list \<times> (error + json list)" where
  "collect_pages fut [] out results = (out, Inr results)"
| "collect_pages fut (f # fs) out results =
     (case fut f of
        Inl e \<Rightarrow> (out, Inl e)
      | Inr (pg, data) \<Rightarrow>
          if py_truthy data
          then (case py_len data of
                  Inl e \<Rightarrow> (out, Inl e)
                | Inr n \<Rightarrow>
                    (case py_iter data of
                       Inl e \<Rightarrow> (out @ [PageLine pg n], Inl e)
                     | Inr items \<Rightarrow> collect_pages fut fs (out @ [PageLine pg n]) (results @ items)))
          else collect_pages fut fs out results)"

text \<open>
  Every task is submitted before the first result is read, and leaving the \<^verbatim>\<open>with\<close>
  block waits for all of them, also when an exception leaves the loop: the requests
  sent are those of all submitted tasks, listed here in submission order.
\<close>

definition get_all_pages ::
  "server \<Rightarrow> url \<Rightarrow> (string \<times> json) list \<Rightarrow> nat list \<Rightarrow> (json list) run" where
  "get_all_pages srv u ps order =
     (let r = collect_pages (fetch_page srv u ps) order [] []
      in \<lparr>sent = map (page_request u ps) [1..<MAX_PAGES + 1],
          printed = fst r,
          outcome = snd r\<rparr>)"

section \<open>The probe loop\<close>

text \<open>
  \<^verbatim>\<open>
  committed = []
  checked = 0
  with ThreadPoolExecutor(max_workers=20) as pool:
      futures = {pool.submit(has_user_commits, p["id"]): p for p in all_projects}
      for future in as_completed(futures):
          checked += 1
          p = futures[future]
          try:
              if future.result():
                  committed.append(p)
                  print(f"  [{checked}/{len(all_projects)}] + {p['path_with_namespace']}", ...)
              else:
                  print(f"  [{checked}/{len(all_projects)}]   {p['path_with_namespace']}", ...)
          except Exception as e:
              print(f"  [{checked}/{len(all_projects)}] ! {p['path_with_namespace']}: {e}", ...)
  \<close>
  Submission evaluates \<^verbatim>\<open>p["id"]\<close> for each project in turn, outside any \<^verbatim>\<open>try\<close>: the
  first project without it ends the stage, after the tasks before it were submitted.
\<close>

fun submit_ids :: "json list \<Rightarrow> json list \<times> error option" where
  "submit_ids [] = ([], None)"
| "submit_ids (p # ps) =
     (case py_getitem p ''id'' of
        Inl e \<Rightarrow> ([], Some e)
      | Inr i \<Rightarrow> (let r = submit_ids ps in (i # fst r, snd r)))"

text \<open>
  The \<^verbatim>\<open>except\<close> branch: it formats \<^verbatim>\<open>p['path_with_namespace']\<close> again, outside the
  \<^verbatim>\<open>try\<close>, so an exception there leaves the loop.
\<close>

definition failed_line :: "json \<Rightarrow> nat \<Rightarrow> nat \<Rightarrow> error \<Rightarrow> error + line" where
  "failed_line p checked n_projects e =
     (case py_getitem p ''path_with_namespace'' of
        Inl e' \<Rightarrow> Inl e'
      | Inr path \<Rightarrow> Inr (Failed checked n_projects path e))"

text \<open>
  The loop over the futures in completion order: \<open>order\<close> lists the positions in
  \<open>all_projects\<close> of the projects whose probes complete, each once, and \<open>fut i\<close> is
  what \<^verbatim>\<open>future.result()\<close> gives for the probe of the project at position \<open>i\<close>. In the
  \<^verbatim>\<open>try\<close> block the project is appended before the line is formatted.
\<close>

fun check_all ::
  "(nat \<Rightarrow> error + bool) \<Rightarrow> json list \<Rightarrow> nat list \<Rightarrow> nat \<Rightarrow> line list \<Rightarrow> json list
     \<Rightarrow> line list \<times> (error + json list)" where
  "check_all fut all_projects [] checked out committed = (out, Inr committed)"
| "check_all fut all_projects (f # fs) checked out committed =
     (let checked' = checked + 1;
          p = all_projects ! f;
          n_projects = length all_projects
      in case fut f of
           Inl e \<Rightarrow>
             (case failed_line p checked' n_projects e of
                Inl e' \<Rightarrow> (out, Inl e')
              | Inr l \<Rightarrow> check_all fut all_projects fs checked' (out @ [l]) committed)
         | Inr b \<Rightarrow>
             (let committed' = (if b then committed @ [p] else committed)
              in case py_getitem p ''path_with_namespace'' of
                   Inl e \<Rightarrow>
                     (case failed_line p checked' n_projects e of
                        Inl e' \<Rightarrow> (out, Inl e')
                      | Inr l \<Rightarrow> check_all fut all_projects fs checked' (out @ [l]) committed')
                 | Inr path \<Rightarrow>
                     check_all fut all_projects fs checked'
                       (out @ [if b then Matched checked' n_projects path
                               else NotMatched checked' n_projects path])
                       committed'))"

definition check_projects ::
  "config \<Rightarrow> server \<Rightarrow> json list \<Rightarrow> nat list \<Rightarrow> (json list) run" where
  "check_projects cfg srv all_projects order =
     (let s = submit_ids all_projects;
          futures = map (has_user_commits cfg srv) (fst s)
      in case snd s of
           Some e \<Rightarrow> \<lparr>sent = concat (map fst futures), printed = [], outcome = Inl e\<rparr>
         | None \<Rightarrow>
             (let r = check_all (\<lambda>i. snd (futures ! i)) all_projects order 0 [] []
              in \<lparr>sent = concat (map fst futures), printed = fst r, outcome = snd r\<rparr>))"

section \<open>Sorting and the report\<close>

text \<open>
  \<^verbatim>\<open>committed.sort(key=lambda p: p.get("last_activity_at", ""), reverse=True)\<close>

  The keys are computed first, one per record, and the records are then ordered by
  comparing their keys with \<^verbatim>\<open><\<close>. Python orders two strings (by code point), two
  numbers (with \<^verbatim>\<open>True\<close> as 1 and \<^verbatim>\<open>False\<close> as 0) and two lists: the lists are compared at
  the first position where their elements are not equal (\<^verbatim>\<open>==\<close>), and by length when
  there is none. Any other comparison raises \<^verbatim>\<open>TypeError\<close>: a string with a number, and
  \<^verbatim>\<open>None\<close> or a dict with anything.
\<close>

definition sort_key_of :: "json \<Rightarrow> error + json" where
  "sort_key_of p = py_get p ''last_activity_at'' (JStr [])"

fun sort_keys :: "json list \<Rightarrow> error + json list" where
  "sort_keys [] = Inr []"
| "sort_keys (p # ps) =
     (case sort_key_of p of
        Inl e \<Rightarrow> Inl e
      | Inr k \<Rightarrow> (case sort_keys ps of Inl e \<Rightarrow> Inl e | Inr ks \<Rightarrow> Inr (k # ks)))"

fun num_val :: "json \<Rightarrow> int option" where
  "num_val (JNum n) = Some n"
| "num_val (JBool b) = Some (if b then 1 else 0)"
| "num_val _ = None"

text \<open>
  \<^verbatim>\<open>x == y\<close> on decoded values: numbers by value, lists element by element, dicts as
  maps, whatever the order of their keys.
\<close>

fun py_eq :: "json \<Rightarrow> json \<Rightarrow> bool" where
  "py_eq (JStr a) (JStr b) = (a = b)"
| "py_eq JNull JNull = True"
| "py_eq (JArr xs) (JArr ys) = list_all2 py_eq xs ys"
| "py_eq (JObj kvs) (JObj kvs') =
     (length kvs = length kvs'
      \<and> list_all (\<lambda>kv. case map_of kvs' (fst kv) of
                          None \<Rightarrow> False
                        | Some v' \<Rightarrow> py_eq (snd kv) v') kvs)"
| "py_eq x y =
     (case num_val x of
        None \<Rightarrow> False
      | Some m \<Rightarrow> (case num_val y of None \<Rightarrow> False | Some n \<Rightarrow> m = n))"

text \<open>\<^verbatim>\<open>x < y\<close> on decoded values; \<open>None\<close> is the \<^verbatim>\<open>TypeError\<close>.\<close>

fun py_lt :: "json \<Rightarrow> json \<Rightarrow> bool option"
  and list_lt :: "json list \<Rightarrow> json list \<Rightarrow> bool option" where
  "py_lt (JStr a) (JStr b) = Some (a < b)"
| "py_lt (JArr xs) (JArr ys) = list_lt xs ys"
| "py_lt x y =
     (case num_val x of
        None \<Rightarrow> None
      | Some m \<Rightarrow> (case num_val y of None \<Rightarrow> None | Some n \<Rightarrow> Some (m < n)))"
| "list_lt [] [] = Some False"
| "list_lt [] (y # ys) = Some True"
| "list_lt (x # xs) [] = Some False"
| "list_lt (x # xs) (y # ys) = (if py_eq x y then list_lt xs ys else py_lt x y)"

text \<open>
  The sort is stable and uses \<^verbatim>\<open><\<close> only. With \<^verbatim>\<open>reverse=True\<close> the list is reversed,
  sorted in ascending order and reversed again. Each record travels with its key;
  \<open>insort_pair\<close> puts a record before the first one whose key is not less than its own.
\<close>

fun insort_pair :: "json \<times> json \<Rightarrow> (json \<times> json) list \<Rightarrow> (json \<times> json) list" where
  "insort_pair x [] = [x]"
| "insort_pair x (y # ys) =
     (if py_lt (fst y) (fst x) = Some True then y # insort_pair x ys else x # y # ys)"

definition sort_pairs :: "(json \<times> json) list \<Rightarrow> (json \<times> json) list" where
  "sort_pairs xs = foldr insort_pair xs []"

text \<open>
  A list of at most one record is never compared. A longer list is sorted when every
  two of its keys can be ordered, and the sort raises \<^verbatim>\<open>TypeError\<close> when two of them
  cannot: no key that can be ordered with both lies between two such keys, so every
  sorting run has to compare two of them.
\<close>

definition comparable :: "json list \<Rightarrow> bool" where
  "comparable ks = list_all (\<lambda>a. list_all (\<lambda>b. py_lt a b \<noteq> None) ks) ks"

definition sort_committed :: "json list \<Rightarrow> error + json list" where
  "sort_committed committed =
     (case sort_keys committed of
        Inl e \<Rightarrow> Inl e
      | Inr ks \<Rightarrow>
          if length committed \<le> 1 then Inr committed
          else if comparable ks
          then Inr (map snd (rev (sort_pairs (rev (zip ks committed)))))
          else Inl TypeError)"

text \<open>The sort key of a record as a string, for records whose key is one.\<close>

definition str_key :: "json \<Rightarrow> string" where
  "str_key p = (case sort_key_of p of Inr (JStr s) \<Rightarrow> s | _ \<Rightarrow> [])"

text \<open>
  \<^verbatim>\<open>
  with open(outfile, "w", newline="") as f:
      w = csv.writer(f)
      w.writerow(["last_activity", "project", "url"])
      for p in committed:
          w.writerow([p["last_activity_at"], p["path_with_namespace"], p["web_url"]])
  \<close>
  The file is the list of the rows written, each a list of cells; an exception while a
  row is built leaves the rows already written in the file.
\<close>

definition report_row :: "json \<Rightarrow> error + json list" where
  "report_row p =
     (case py_getitem p ''last_activity_at'' of
        Inl e \<Rightarrow> Inl e
      | Inr a \<Rightarrow>
          (case py_getitem p ''path_with_namespace'' of
             Inl e \<Rightarrow> Inl e
           | Inr b \<Rightarrow>
               (case py_getitem p ''web_url'' of
                  Inl e \<Rightarrow> Inl e
                | Inr c \<Rightarrow> Inr [a, b, c])))"

fun write_rows :: "json list \<Rightarrow> json list list \<Rightarrow> json list list \<times> error option" where
  "write_rows [] rows = (rows, None)"
| "write_rows (p # ps) rows =
     (case report_row p of
        Inl e \<Rightarrow> (rows, Some e)
      | Inr r \<Rightarrow> write_rows ps (rows @ [r]))"

definition write_report :: "json list \<Rightarrow> json list list \<times> error option" where
  "write_report committed =
     write_rows committed [[JStr ''last_activity'', JStr ''project'', JStr ''url'']]"

section \<open>The script\<close>

text \<open>
  \<^verbatim>\<open>
  all_projects = get_all_pages(f"{base}/projects",
                               {"membership": "true", "per_page": 100, "simple": "true"})
  \<close>
\<close>

definition membership_params :: "(string \<times> json) list" where
  "membership_params =
     [(''membership'', JStr ''true''), (''per_page'', JNum 100), (''simple'', JStr ''true'')]"

definition fetch_projects :: "config \<Rightarrow> server \<Rightarrow> nat list \<Rightarrow> (json list) run" where
  "fetch_projects cfg srv order =
     get_all_pages srv (ProjectsUrl (base cfg)) membership_params order"

text \<open>
  The stages after the listing, for a list of fetched projects: the probe loop, then
  the sort, then the report. The result is the file written, if it was opened, and the
  exception that ended the script, if any.
\<close>

definition report_projects ::
  "config \<Rightarrow> server \<Rightarrow> json list \<Rightarrow> nat list \<Rightarrow> json list list option \<times> error option" where
  "report_projects cfg srv all_projects order =
     (case outcome (check_projects cfg srv all_projects order) of
        Inl e \<Rightarrow> (None, Some e)
      | Inr committed \<Rightarrow>
          (case sort_committed committed of
             Inl e \<Rightarrow> (None, Some e)
           | Inr ordered \<Rightarrow>
               (let w = write_report ordered in (Some (fst w), snd w))))"

section \<open>Predicates used to state the properties\<close>

text \<open>The value a project's probe gives: what \<^verbatim>\<open>has_user_commits(p["id"])\<close> returns or raises.\<close>

definition probe :: "config \<Rightarrow> server \<Rightarrow> json \<Rightarrow> error + bool" where
  "probe cfg srv p =
     (case py_getitem p ''id'' of
        Inl e \<Rightarrow> Inl e
      | Inr i \<Rightarrow> snd (has_user_commits cfg srv i))"

definition has_key :: "json \<Rightarrow> string \<Rightarrow> bool" where
  "has_key p k = (case py_getitem p k of Inl e \<Rightarrow> False | Inr v \<Rightarrow> True)"

text \<open>
  The body of the paginator's loop ends without an exception for the future of page
  \<open>f\<close>: the fetch returned, and its data is either false (nothing is done) or has a
  length and can be iterated.
\<close>

definition page_passes :: "(nat \<Rightarrow> error + nat \<times> json) \<Rightarrow> nat \<Rightarrow> bool" where
  "page_passes fut f =
     (case fut f of
        Inl e \<Rightarrow> False
      | Inr (pg, data) \<Rightarrow>
          if py_truthy data
          then (case py_len data of
                  Inl e \<Rightarrow> False
                | Inr n \<Rightarrow> (case py_iter data of Inl e \<Rightarrow> False | Inr items \<Rightarrow> True))
          else True)"

fun is_failed :: "line \<Rightarrow> bool" where
  "is_failed (Failed c n path e) = True"
| "is_failed _ = False"

section \<open>Example data\<close>

definition demo_cfg :: config where
  "demo_cfg = \<lparr>base = ''https://gitlab.com/api/v4'', username = ''alice''\<rparr>"

definition demo_p1 :: json where
  "demo_p1 = JObj [(''id'', JNum 1), (''path_with_namespace'', JStr ''group/one''),
                   (''last_activity_at'', JStr ''2024-01-05T10:00:00Z''),
                   (''web_url'', JStr ''https://gitlab.com/group/one'')]"

definition demo_p2 :: json where
  "demo_p2 = JObj [(''id'', JNum 2), (''path_with_namespace'', JStr ''group/two''),
                   (''last_activity_at'', JStr ''2024-02-11T08:30:00Z''),
                   (''web_url'', JStr ''https://gitlab.com/group/two'')]"

definition demo_p3 :: json where
  "demo_p3 = JObj [(''id'', JNum 3), (''path_with_namespace'', JStr ''group/three''),
                   (''last_activity_at'', JStr ''2024-03-20T17:45:00Z''),
                   (''web_url'', JStr ''https://gitlab.com/group/three'')]"

text \<open>A record without the last-activity field.\<close>

definition demo_p4 :: json where
  "demo_p4 = JObj [(''id'', JNum 4), (''path_with_namespace'', JStr ''group/four''),
                   (''web_url'', JStr ''https://gitlab.com/group/four'')]"

definition demo_pages :: "nat \<Rightarrow> json list" where
  "demo_pages p = (if p = 1 then [demo_p1, demo_p2] else if p = 2 then [demo_p3, demo_p4] else [])"

definition demo_commit :: json where
  "demo_commit = JObj [(''id'', JStr ''6104942438c14ec7bd21c6cd5bd995272b3faff6'')]"

text \<open>
  A server with two pages of two projects each and empty pages after them. The user
  has a commit in project 1 (found by the primary request) and in project 3 (found by
  the fallback request only), none in project 2; the connection fails on every request
  about project 4; any other project is not found.
\<close>

definition demo_srv :: server where
  "demo_srv r =
     (case url r of
        ProjectsUrl b \<Rightarrow>
          (case map_of (params r) ''page'' of
             Some (JNum n) \<Rightarrow> Response 200 (Some (JArr (demo_pages (nat n))))
           | _ \<Rightarrow> Response 400 None)
      | CommitsUrl b i \<Rightarrow>
          (if i = JNum 1 then Response 200 (Some (JArr [demo_commit]))
           else if i = JNum 2 then Response 200 (Some (JArr []))
           else if i = JNum 3 then
             (if map_of (params r) ''all'' = None then Response 200 (Some (JArr []))
              else Response 200 (Some (JArr [demo_commit])))
           else if i = JNum 4 then Raised RequestException
           else Response 404 (Some (JObj [(''message'', JStr ''404 Project Not Found'')]))))"

text \<open>
  A listing that never ends: every page holds one item, also the pages after the
  ceiling.
\<close>

definition endless_pages :: "nat \<Rightarrow> json list" where
  "endless_pages p = [JObj [(''id'', JNum (int p)), (''path_with_namespace'', JStr ''group/project'')]]"

definition endless_srv :: server where
  "endless_srv r =
     (case map_of (params r) ''page'' of
        Some (JNum n) \<Rightarrow> Response 200 (Some (JArr (endless_pages (nat n))))
      | _ \<Rightarrow> Response 400 None)"

text \<open>The same listing cut after the ceiling: the pages after page 200 are empty.\<close>

definition capped_srv :: server where
  "capped_srv r =
     (case map_of (params r) ''page'' of
        Some (JNum n) \<Rightarrow>
          Response 200 (Some (JArr (if n \<le> 200 then endless_pages (nat n) else [])))
      | _ \<Rightarrow> Response 400 None)"

text \<open>A server that answers page 1 with status 300 and one project, and every other page
  with status 200 and an empty list.\<close>

definition multiple_choices_pages :: "nat \<Rightarrow> json list" where
  "multiple_choices_pages p = (if p = 1 then [demo_p1] else [])"

definition multiple_choices_srv :: server where
  "multiple_choices_srv r =
     (case map_of (params r) ''page'' of
        Some (JNum n) \<Rightarrow>
          Response (if n = 1 then 300 else 200) (Some (JArr (multiple_choices_pages (nat n))))
      | _ \<Rightarrow> Response 400 None)"

text \<open>A server whose pages 1 and 2 both hold project 1, as when the listing shifts
  between the two fetches.\<close>

definition shifted_pages :: "nat \<Rightarrow> json list" where
  "shifted_pages p = (if p = 1 \<or> p = 2 then [demo_p1] else [])"

definition shifted_srv :: server where
  "shifted_srv r =
     (case map_of (params r) ''page'' of
        Some (JNum n) \<Rightarrow> Response 200 (Some (JArr (shifted_pages (nat n))))
      | _ \<Rightarrow> Response 400 None)"

text \<open>A server that answers every request with status 200 and a body that is not JSON.\<close>

definition undecodable_srv :: server where
  "undecodable_srv r = Response 200 None"

text \<open>A server on which the connection fails for page 7 only.\<close>

definition broken_srv :: server where
  "broken_srv r =
     (if map_of (params r) ''page'' = Some (JNum 7) then Raised RequestException
      else demo_srv r)"

section \<open>Properties of the commit probe\<close>

lemma primary_neq_fallback: "primary_request cfg pid \<noteq> fallback_request cfg pid"
  by (simp add: primary_request_def fallback_request_def)

text \<open>
  Claim C4. When the primary request returns status 200 with at least one item,
  \<open>has_user_commits\<close> returns true and the only request sent is the primary one: the
  fallback request is sent zero times.
\<close>

theorem has_user_commits_primary_hit:
  assumes "srv (primary_request cfg pid) = Response 200 (Some (JArr items))"
    and "items \<noteq> []"
  shows "has_user_commits cfg srv pid = ([primary_request cfg pid], Inr True)
       \<and> count_list (fst (has_user_commits cfg srv pid)) (fallback_request cfg pid) = 0"
proof -
  have "status_and_json 200 (Some (JArr items)) = Inr True"
    using assms(2) by (simp add: status_and_json_def)
  then have eq: "has_user_commits cfg srv pid = ([primary_request cfg pid], Inr True)"
    using assms(1) by (simp add: has_user_commits_def)
  have "fallback_request cfg pid \<noteq> primary_request cfg pid"
    using primary_neq_fallback [of cfg pid] by simp
  then show ?thesis using eq by simp
qed

theorem has_user_commits_primary_hit_witness:
  "has_user_commits demo_cfg (\<lambda>r. Response 200 (Some (JArr [JObj [(''id'', JStr ''c0ffee'')]]))) (JNum 7)
     = ([primary_request demo_cfg (JNum 7)], Inr True)
   \<and> count_list (fst (has_user_commits demo_cfg
        (\<lambda>r. Response 200 (Some (JArr [JObj [(''id'', JStr ''c0ffee'')]]))) (JNum 7)))
        (fallback_request demo_cfg (JNum 7)) = 0"
  by (rule has_user_commits_primary_hit [where items = "[JObj [(''id'', JStr ''c0ffee'')]]"]) simp_all

text \<open>
  A status other than 200 on a request counts as no match for that request and raises
  nothing: after such a primary response the fallback request alone decides, and such
  a fallback response gives false.
\<close>

lemma has_user_commits_primary_not_200:
  assumes "srv (primary_request cfg pid) = Response st1 body1" and "st1 \<noteq> 200"
    and "srv (fallback_request cfg pid) = Response st2 body2"
  shows "has_user_commits cfg srv pid
           = ([primary_request cfg pid, fallback_request cfg pid], status_and_json st2 body2)"
  using assms by (simp add: has_user_commits_def status_and_json_def)

lemma has_user_commits_fallback_not_200:
  assumes "srv (primary_request cfg pid) = Response st1 (Some j)" and "\<not> py_truthy j"
    and "srv (fallback_request cfg pid) = Response st2 body2" and "st2 \<noteq> 200"
  shows "has_user_commits cfg srv pid
           = ([primary_request cfg pid, fallback_request cfg pid], Inr False)"
  using assms by (simp add: has_user_commits_def status_and_json_def)

text \<open>
  Claim C5. When both the primary and the fallback request return a status outside
  200..299, \<open>has_user_commits\<close> sends both requests, returns false and raises nothing,
  whatever the two bodies are.
\<close>

theorem has_user_commits_non_success:
  assumes "srv (primary_request cfg pid) = Response st1 body1"
    and "\<not> (200 \<le> st1 \<and> st1 \<le> 299)"
    and "srv (fallback_request cfg pid) = Response st2 body2"
    and "\<not> (200 \<le> st2 \<and> st2 \<le> 299)"
  shows "has_user_commits cfg srv pid
           = ([primary_request cfg pid, fallback_request cfg pid], Inr False)"
proof -
  have "st1 \<noteq> 200" and "st2 \<noteq> 200"
    using assms(2,4) by auto
  then have "status_and_json st1 body1 = Inr False" and "status_and_json st2 body2 = Inr False"
    by (simp_all add: status_and_json_def)
  then show ?thesis
    using assms(1,3) by (simp add: has_user_commits_def)
qed

theorem has_user_commits_non_success_witness:
  "has_user_commits demo_cfg (\<lambda>r. if r = primary_request demo_cfg (JNum 7)
        then Response 404 (Some (JObj [(''message'', JStr ''404 Project Not Found'')]))
        else Response 503 None) (JNum 7)
     = ([primary_request demo_cfg (JNum 7), fallback_request demo_cfg (JNum 7)], Inr False)"
  by (rule has_user_commits_non_success
        [where ?st1.0 = 404 and ?st2.0 = 503 and ?body2.0 = None
           and ?body1.0 = "Some (JObj [(''message'', JStr ''404 Project Not Found'')])"])
     (simp_all add: primary_request_def fallback_request_def)

text \<open>
  Claim C10, amended. The fallback request is sent, once, exactly when the primary
  request returns a response that is not status 200 with a non-empty body: a response
  with another status, or with status 200 and an empty (false) decoded body. When the
  primary request raises, or answers with status 200 and a body that is not JSON, the
  exception leaves \<open>has_user_commits\<close> and no fallback request is sent. The fallback
  request has the URL and the timeout of the primary one, and its parameters are
  those of the primary one, with the same author and the same limit of one result,
  plus \<open>all = true\<close>.
\<close>

theorem has_user_commits_fallback_iff:
  "fst (has_user_commits cfg srv pid)
     = (if \<exists>st body. srv (primary_request cfg pid) = Response st body
             \<and> (st \<noteq> 200 \<or> (\<exists>j. body = Some j \<and> \<not> py_truthy j))
        then [primary_request cfg pid, fallback_request cfg pid]
        else [primary_request cfg pid])
   \<and> (fallback_request cfg pid \<in> set (fst (has_user_commits cfg srv pid))
        \<longleftrightarrow> (\<exists>st body. srv (primary_request cfg pid) = Response st body
               \<and> (st \<noteq> 200 \<or> (\<exists>j. body = Some j \<and> \<not> py_truthy j))))
   \<and> (\<forall>e. srv (primary_request cfg pid) = Raised e
          \<longrightarrow> has_user_commits cfg srv pid = ([primary_request cfg pid], Inl e))
   \<and> (srv (primary_request cfg pid) = Response 200 None
          \<longrightarrow> has_user_commits cfg srv pid = ([primary_request cfg pid], Inl JSONDecodeError))
   \<and> url (fallback_request cfg pid) = url (primary_request cfg pid)
   \<and> timeout (fallback_request cfg pid) = timeout (primary_request cfg pid)
   \<and> map_of (params (primary_request cfg pid)) ''all'' = None
   \<and> map_of (params (fallback_request cfg pid))
        = (map_of (params (primary_request cfg pid)))(''all'' \<mapsto> JStr ''true'')
   \<and> map_of (params (fallback_request cfg pid)) ''author'' = Some (JStr (username cfg))
   \<and> map_of (params (fallback_request cfg pid)) ''per_page'' = Some (JNum 1)"
proof -
  let ?again = "\<exists>st body. srv (primary_request cfg pid) = Response st body
             \<and> (st \<noteq> 200 \<or> (\<exists>j. body = Some j \<and> \<not> py_truthy j))"
  have calls: "fst (has_user_commits cfg srv pid)
     = (if ?again then [primary_request cfg pid, fallback_request cfg pid]
        else [primary_request cfg pid])"
  proof (cases "srv (primary_request cfg pid)")
    case (Raised e)
    then show ?thesis by (simp add: has_user_commits_def)
  next
    case (Response st body)
    then show ?thesis
      by (cases "srv (fallback_request cfg pid)")
         (auto simp: has_user_commits_def status_and_json_def Let_def split: option.splits)
  qed
  have neq: "fallback_request cfg pid \<noteq> primary_request cfg pid"
    using primary_neq_fallback [of cfg pid] by simp
  have issued: "fallback_request cfg pid \<in> set (fst (has_user_commits cfg srv pid)) \<longleftrightarrow> ?again"
    unfolding calls using neq by simp
  have raised: "\<forall>e. srv (primary_request cfg pid) = Raised e
          \<longrightarrow> has_user_commits cfg srv pid = ([primary_request cfg pid], Inl e)"
    by (simp add: has_user_commits_def)
  have undecodable: "srv (primary_request cfg pid) = Response 200 None
          \<longrightarrow> has_user_commits cfg srv pid = ([primary_request cfg pid], Inl JSONDecodeError)"
    by (simp add: has_user_commits_def status_and_json_def)
  have shape: "map_of (params (fallback_request cfg pid))
            = (map_of (params (primary_request cfg pid)))(''all'' \<mapsto> JStr ''true'')"
    by (rule ext) (simp add: primary_request_def fallback_request_def)
  have rest: "url (fallback_request cfg pid) = url (primary_request cfg pid)
   \<and> timeout (fallback_request cfg pid) = timeout (primary_request cfg pid)
   \<and> map_of (params (primary_request cfg pid)) ''all'' = None
   \<and> map_of (params (fallback_request cfg pid)) ''author'' = Some (JStr (username cfg))
   \<and> map_of (params (fallback_request cfg pid)) ''per_page'' = Some (JNum 1)"
    by (simp add: primary_request_def fallback_request_def)
  show ?thesis
    using calls issued raised undecodable shape rest by blast
qed

theorem has_user_commits_fallback_iff_witness:
  "fst (has_user_commits demo_cfg demo_srv (JNum 3))
     = [primary_request demo_cfg (JNum 3), fallback_request demo_cfg (JNum 3)]
   \<and> fst (has_user_commits demo_cfg demo_srv (JNum 5))
     = [primary_request demo_cfg (JNum 5), fallback_request demo_cfg (JNum 5)]
   \<and> fst (has_user_commits demo_cfg demo_srv (JNum 1)) = [primary_request demo_cfg (JNum 1)]
   \<and> has_user_commits demo_cfg demo_srv (JNum 4)
     = ([primary_request demo_cfg (JNum 4)], Inl RequestException)
   \<and> has_user_commits demo_cfg undecodable_srv (JNum 1)
     = ([primary_request demo_cfg (JNum 1)], Inl JSONDecodeError)"
proof -
  have r3: "demo_srv (primary_request demo_cfg (JNum 3)) = Response 200 (Some (JArr []))"
    by (simp add: demo_srv_def primary_request_def)
  have r5: "demo_srv (primary_request demo_cfg (JNum 5))
              = Response 404 (Some (JObj [(''message'', JStr ''404 Project Not Found'')]))"
    by (simp add: demo_srv_def primary_request_def)
  have r1: "demo_srv (primary_request demo_cfg (JNum 1)) = Response 200 (Some (JArr [demo_commit]))"
    by (simp add: demo_srv_def primary_request_def)
  have r4: "demo_srv (primary_request demo_cfg (JNum 4)) = Raised RequestException"
    by (simp add: demo_srv_def primary_request_def)
  have ru: "undecodable_srv (primary_request demo_cfg (JNum 1)) = Response 200 None"
    by (simp add: undecodable_srv_def)
  have a: "fst (has_user_commits demo_cfg demo_srv (JNum 3))
     = [primary_request demo_cfg (JNum 3), fallback_request demo_cfg (JNum 3)]"
    using has_user_commits_fallback_iff [of demo_cfg demo_srv "JNum 3"] r3 by simp
  have b: "fst (has_user_commits demo_cfg demo_srv (JNum 5))
     = [primary_request demo_cfg (JNum 5), fallback_request demo_cfg (JNum 5)]"
    using has_user_commits_fallback_iff [of demo_cfg demo_srv "JNum 5"] r5 by simp
  have c: "fst (has_user_commits demo_cfg demo_srv (JNum 1)) = [primary_request demo_cfg (JNum 1)]"
    using has_user_commits_fallback_iff [of demo_cfg demo_srv "JNum 1"] r1
    by (simp add: demo_commit_def)
  have d: "has_user_commits demo_cfg demo_srv (JNum 4)
     = ([primary_request demo_cfg (JNum 4)], Inl RequestException)"
    using has_user_commits_fallback_iff [of demo_cfg demo_srv "JNum 4"] r4 by blast
  have e: "has_user_commits demo_cfg undecodable_srv (JNum 1)
     = ([primary_request demo_cfg (JNum 1)], Inl JSONDecodeError)"
    using has_user_commits_fallback_iff [of demo_cfg undecodable_srv "JNum 1"] ru by blast
  show ?thesis using a b c d e by blast
qed

text \<open>
  The claim as stated, the fallback sent whenever the primary request does not return
  status 200 with a non-empty body, fails when the primary request raises: nothing is
  returned, and the only request sent is the primary one.
\<close>

theorem has_user_commits_primary_raises_counterexample:
  "demo_srv (primary_request demo_cfg (JNum 4)) = Raised RequestException
   \<and> has_user_commits demo_cfg demo_srv (JNum 4)
       = ([primary_request demo_cfg (JNum 4)], Inl RequestException)"
  by (simp add: has_user_commits_def demo_srv_def primary_request_def)

section \<open>Properties of the paginator\<close>

lemma collect_pages_ok:
  assumes "\<forall>p\<in>set order. fut p = Inr (p, JArr (pages p))"
  shows "collect_pages fut order out rs =
     (out @ map (\<lambda>p. PageLine p (length (pages p))) (filter (\<lambda>p. pages p \<noteq> []) order),
      Inr (rs @ concat (map pages order)))"
  using assms
  by (induction order arbitrary: out rs) auto

lemma collect_pages_fails:
  assumes "p \<in> set order" and "fut p = Inl e"
  shows "\<exists>e'. snd (collect_pages fut order out rs) = Inl e'"
  using assms
  by (induction order arbitrary: out rs) (auto split: sum.splits prod.splits)

lemma collect_pages_first_failure:
  assumes "\<forall>q\<in>set xs. fut q = Inr (q, JArr (pages q))" and "fut p = Inl e"
  shows "snd (collect_pages fut (xs @ p # ys) out rs) = Inl e"
  using assms
  by (induction xs arbitrary: out rs) auto

lemma collect_pages_cong:
  assumes "\<forall>p\<in>set order. fut p = fut' p"
  shows "collect_pages fut order out rs = collect_pages fut' order out rs"
  using assms
  by (induction order arbitrary: out rs) (auto split: sum.splits prod.splits)

lemma fetch_page_ok:
  assumes "srv (page_request u ps p) = Response st (Some j)" and "\<not> (400 \<le> st \<and> st < 600)"
  shows "fetch_page srv u ps p = Inr (p, j)"
  using assms by (simp add: fetch_page_def raise_for_status_def)

lemma fetch_page_fails:
  assumes "srv (page_request u ps p) = Raised e
         \<or> (\<exists>st body. srv (page_request u ps p) = Response st body \<and> 400 \<le> st \<and> st < 600)"
  shows "\<exists>e'. fetch_page srv u ps p = Inl e'"
  using assms by (auto simp: fetch_page_def raise_for_status_def)

lemma order_set:
  assumes "mset order = mset [1..<MAX_PAGES + 1]"
  shows "set order = {1..MAX_PAGES}" and "distinct order"
proof -
  have "set order = set [1..<MAX_PAGES + 1]"
    using assms by (rule mset_eq_setD)
  then show "set order = {1..MAX_PAGES}" by auto
  show "distinct order"
    using mset_eq_imp_distinct_iff [OF assms] by simp
qed

lemma mset_concat_map:
  "mset (concat (map f xs)) = (\<Sum>x\<in>#mset xs. mset (f x))"
  by (induction xs) simp_all

lemma mset_concat_perm:
  assumes "mset xs = mset ys"
  shows "mset (concat (map f xs)) = mset (concat (map f ys))"
  using assms by (simp add: mset_concat_map)

lemma concat_upto_ceiling:
  assumes "N \<le> M" and "\<forall>p\<in>{N + 1..M}. pages p = []"
  shows "concat (map pages [1..<M + 1]) = concat (map pages [1..<N + 1])"
proof -
  have "[1..<M + 1] = [1..<N + 1] @ [N + 1..<M + 1]"
    using assms(1) by (metis add_le_mono1 le_Suc_ex le_add2 upt_add_eq_append)
  moreover have "concat (map pages [N + 1..<M + 1]) = []"
    using assms(2) by auto
  ultimately show ?thesis by simp
qed

lemma get_all_pages_ok:
  assumes "\<forall>p\<in>set order. srv (page_request u ps p) = Response 200 (Some (JArr (pages p)))"
  shows "outcome (get_all_pages srv u ps order) = Inr (concat (map pages order))"
    and "printed (get_all_pages srv u ps order)
           = map (\<lambda>p. PageLine p (length (pages p))) (filter (\<lambda>p. pages p \<noteq> []) order)"
proof -
  have "\<forall>p\<in>set order. fetch_page srv u ps p = Inr (p, JArr (pages p))"
    using assms by (simp add: fetch_page_ok)
  then have "collect_pages (fetch_page srv u ps) order [] [] =
     (map (\<lambda>p. PageLine p (length (pages p))) (filter (\<lambda>p. pages p \<noteq> []) order),
      Inr (concat (map pages order)))"
    using collect_pages_ok [of order "fetch_page srv u ps" pages "[]" "[]"] by simp
  then show "outcome (get_all_pages srv u ps order) = Inr (concat (map pages order))"
    and "printed (get_all_pages srv u ps order)
           = map (\<lambda>p. PageLine p (length (pages p))) (filter (\<lambda>p. pages p \<noteq> []) order)"
    by (simp_all add: get_all_pages_def)
qed

text \<open>
  Claim C1. Let every page from 1 to the ceiling answer with status 200 and a list,
  the pages after page \<open>N\<close> with the empty list (the property holds whatever the
  pages 1 to \<open>N\<close> hold, so also when none of them is empty). Then for every completion
  order \<open>get_all_pages\<close> returns a list, and the items returned are exactly the items
  of pages 1 to \<open>N\<close>, as a set and with their multiplicities. Two completion orders
  return the same items.
\<close>

theorem get_all_pages_union:
  assumes "N \<le> MAX_PAGES"
    and "\<forall>p\<in>{1..MAX_PAGES}. srv (page_request u ps p) = Response 200 (Some (JArr (pages p)))"
    and "\<forall>p\<in>{1..N}. pages p \<noteq> []"
    and "\<forall>p\<in>{N + 1..MAX_PAGES}. pages p = []"
    and "mset order = mset [1..<MAX_PAGES + 1]"
    and "mset order' = mset [1..<MAX_PAGES + 1]"
  shows "\<exists>rs rs'. outcome (get_all_pages srv u ps order) = Inr rs
           \<and> outcome (get_all_pages srv u ps order') = Inr rs'
           \<and> set rs = (\<Union>p\<in>{1..N}. set (pages p))
           \<and> mset rs = mset (concat (map pages [1..<N + 1]))
           \<and> set rs' = set rs
           \<and> mset rs' = mset rs"
proof -
  let ?all = "concat (map pages [1..<N + 1])"
  have full: "concat (map pages [1..<MAX_PAGES + 1]) = ?all"
    using assms(1,4) by (rule concat_upto_ceiling)
  have res: "outcome (get_all_pages srv u ps ord) = Inr (concat (map pages ord))
           \<and> mset (concat (map pages ord)) = mset ?all"
    if "mset ord = mset [1..<MAX_PAGES + 1]" for ord
  proof -
    have "set ord = {1..MAX_PAGES}"
      using that by (rule order_set)
    then have "outcome (get_all_pages srv u ps ord) = Inr (concat (map pages ord))"
      using assms(2) by (intro get_all_pages_ok) simp
    moreover have "mset (concat (map pages ord)) = mset ?all"
      using mset_concat_perm [OF that, of pages] full by simp
    ultimately show ?thesis by simp
  qed
  have "set [1..<N + 1] = {1..N}"
    by auto
  then have "set ?all = (\<Union>p\<in>{1..N}. set (pages p))"
    by simp
  then have "set (concat (map pages order)) = (\<Union>p\<in>{1..N}. set (pages p))"
    using res [OF assms(5)] by (metis mset_eq_setD)
  moreover have "set (concat (map pages order')) = set (concat (map pages order))"
    using res [OF assms(5)] res [OF assms(6)] by (metis mset_eq_setD)
  ultimately show ?thesis
    using res [OF assms(5)] res [OF assms(6)] by auto
qed

lemma demo_srv_page:
  "demo_srv (page_request (ProjectsUrl b) ps p) = Response 200 (Some (JArr (demo_pages p)))"
  by (simp add: demo_srv_def page_request_def update_conv')

theorem get_all_pages_union_witness:
  "\<exists>rs rs'. outcome (get_all_pages demo_srv (ProjectsUrl (base demo_cfg)) membership_params
                 [1..<MAX_PAGES + 1]) = Inr rs
     \<and> outcome (get_all_pages demo_srv (ProjectsUrl (base demo_cfg)) membership_params
                 (rev [1..<MAX_PAGES + 1])) = Inr rs'
     \<and> set rs = {demo_p1, demo_p2, demo_p3, demo_p4}
     \<and> mset rs = mset [demo_p1, demo_p2, demo_p3, demo_p4]
     \<and> set rs' = set rs
     \<and> mset rs' = mset rs"
proof -
  have n: "(2::nat) \<le> MAX_PAGES"
    by (simp add: MAX_PAGES_def)
  have ok: "\<forall>p\<in>{1..MAX_PAGES}. demo_srv (page_request (ProjectsUrl (base demo_cfg)) membership_params p)
              = Response 200 (Some (JArr (demo_pages p)))"
    by (simp add: demo_srv_page)
  have full: "\<forall>p\<in>{1..2}. demo_pages p \<noteq> []"
    by (simp add: demo_pages_def)
  have empty: "\<forall>p\<in>{2 + 1..MAX_PAGES}. demo_pages p = []"
    by (simp add: demo_pages_def)
  have o1: "mset [1..<MAX_PAGES + 1] = mset [1..<MAX_PAGES + 1]"
    by simp
  have o2: "mset (rev [1..<MAX_PAGES + 1]) = mset [1..<MAX_PAGES + 1]"
    by simp
  have u: "(\<Union>p\<in>{1..2}. set (demo_pages p)) = {demo_p1, demo_p2, demo_p3, demo_p4}"
  proof -
    have "{1..2::nat} = {1, 2}" by auto
    then show ?thesis by (auto simp: demo_pages_def)
  qed
  have c: "concat (map demo_pages [1..<2 + 1]) = [demo_p1, demo_p2, demo_p3, demo_p4]"
    by (simp add: demo_pages_def upt_conv_Cons)
  show ?thesis
    using get_all_pages_union [OF n ok full empty o1 o2] unfolding u c by simp
qed

lemma page_request_inj: "page_request u ps p = page_request u ps q \<Longrightarrow> p = q"
proof -
  assume "page_request u ps p = page_request u ps q"
  then have "map_of (params (page_request u ps p)) ''page''
           = map_of (params (page_request u ps q)) ''page''"
    by simp
  then show "p = q"
    by (simp add: page_request_def update_conv')
qed

lemma get_all_pages_fields:
  "outcome (get_all_pages srv u ps order) = snd (collect_pages (fetch_page srv u ps) order [] [])"
  "printed (get_all_pages srv u ps order) = fst (collect_pages (fetch_page srv u ps) order [] [])"
  "sent (get_all_pages srv u ps order) = map (page_request u ps) [1..<MAX_PAGES + 1]"
  unfolding get_all_pages_def Let_def by simp_all

text \<open>
  Claim C2, amended. If the fetch of one page from 1 to the ceiling raises in
  \<^verbatim>\<open>session.get\<close> or answers with a status from 400 to 599, then for every completion
  order \<open>get_all_pages\<close> ends with an exception and returns no list. If every other
  page answers with a list, the exception is the one of that page: the transport
  error, or the \<^verbatim>\<open>HTTPError\<close> of its status.
\<close>

theorem get_all_pages_error_fatal:
  assumes "p \<in> {1..MAX_PAGES}"
    and "(\<exists>e. srv (page_request u ps p) = Raised e)
       \<or> (\<exists>st body. srv (page_request u ps p) = Response st body \<and> 400 \<le> st \<and> st < 600)"
    and "mset order = mset [1..<MAX_PAGES + 1]"
  shows "(\<exists>e'. outcome (get_all_pages srv u ps order) = Inl e')
       \<and> ((\<forall>q\<in>{1..MAX_PAGES} - {p}. \<exists>items. fetch_page srv u ps q = Inr (q, JArr items))
            \<longrightarrow> outcome (get_all_pages srv u ps order)
                  = Inl (case srv (page_request u ps p) of
                           Raised e \<Rightarrow> e
                         | Response st body \<Rightarrow> HTTPError st))"
proof -
  let ?err = "case srv (page_request u ps p) of Raised e \<Rightarrow> e | Response st body \<Rightarrow> HTTPError st"
  have fails: "fetch_page srv u ps p = Inl ?err"
    using assms(2) by (auto simp: fetch_page_def raise_for_status_def)
  have mem: "p \<in> set order"
    using order_set(1) [OF assms(3)] assms(1) by simp
  have "\<exists>e'. snd (collect_pages (fetch_page srv u ps) order [] []) = Inl e'"
    using mem fails by (rule collect_pages_fails)
  then have first: "\<exists>e'. outcome (get_all_pages srv u ps order) = Inl e'"
    by (simp only: get_all_pages_fields)
  have second: "outcome (get_all_pages srv u ps order) = Inl ?err"
    if others: "\<forall>q\<in>{1..MAX_PAGES} - {p}. \<exists>items. fetch_page srv u ps q = Inr (q, JArr items)"
  proof -
    obtain xs ys where split: "order = xs @ p # ys" and notin: "p \<notin> set xs"
      using split_list_first [OF mem] by blast
    have sub: "set xs \<subseteq> {1..MAX_PAGES} - {p}"
      using order_set(1) [OF assms(3)] split notin by auto
    define pages where "pages q = (case fetch_page srv u ps q of Inr (n, JArr items) \<Rightarrow> items | _ \<Rightarrow> [])" for q
    have "\<forall>q\<in>set xs. fetch_page srv u ps q = Inr (q, JArr (pages q))"
    proof
      fix q assume "q \<in> set xs"
      then obtain items where "fetch_page srv u ps q = Inr (q, JArr items)"
        using sub others by blast
      then show "fetch_page srv u ps q = Inr (q, JArr (pages q))"
        by (simp add: pages_def)
    qed
    then have "snd (collect_pages (fetch_page srv u ps) (xs @ p # ys) [] []) = Inl ?err"
      using fails by (rule collect_pages_first_failure)
    then show ?thesis
      by (simp only: get_all_pages_fields split)
  qed
  show ?thesis using first second by blast
qed

lemma broken_srv_others:
  "q \<noteq> 7 \<Longrightarrow> fetch_page broken_srv (ProjectsUrl b) ps q = Inr (q, JArr (demo_pages q))"
  by (rule fetch_page_ok [where st = 200])
     (simp_all add: broken_srv_def demo_srv_def page_request_def update_conv')

theorem get_all_pages_error_fatal_witness:
  "outcome (get_all_pages broken_srv (ProjectsUrl (base demo_cfg)) membership_params
              (rev [1..<MAX_PAGES + 1])) = Inl RequestException"
proof -
  have p: "(7::nat) \<in> {1..MAX_PAGES}"
    by (simp add: MAX_PAGES_def)
  have raised: "broken_srv (page_request (ProjectsUrl (base demo_cfg)) membership_params 7)
                  = Raised RequestException"
    by (simp add: broken_srv_def page_request_def update_conv')
  then have bad: "(\<exists>e. broken_srv (page_request (ProjectsUrl (base demo_cfg)) membership_params 7) = Raised e)
       \<or> (\<exists>st body. broken_srv (page_request (ProjectsUrl (base demo_cfg)) membership_params 7)
             = Response st body \<and> 400 \<le> st \<and> st < 600)"
    by simp
  have ord: "mset (rev [1..<MAX_PAGES + 1]) = mset [1..<MAX_PAGES + 1]"
    by simp
  have others: "\<forall>q\<in>{1..MAX_PAGES} - {7}. \<exists>items.
      fetch_page broken_srv (ProjectsUrl (base demo_cfg)) membership_params q = Inr (q, JArr items)"
    by (simp add: broken_srv_others)
  show ?thesis
    using get_all_pages_error_fatal
            [of 7 broken_srv "ProjectsUrl (base demo_cfg)" membership_params "rev [1..<MAX_PAGES + 1]",
             OF p bad ord]
          others raised
    by simp
qed

text \<open>
  The claim as stated, for every status outside 200..299, fails: \<^verbatim>\<open>raise_for_status\<close>
  lets a status below 400 pass. Page 1 answers with status 300 and a list of one
  project, and \<open>get_all_pages\<close> returns that list.
\<close>

theorem get_all_pages_status_300_counterexample:
  "multiple_choices_srv (page_request (ProjectsUrl (base demo_cfg)) membership_params 1)
     = Response 300 (Some (JArr [demo_p1]))
   \<and> outcome (get_all_pages multiple_choices_srv (ProjectsUrl (base demo_cfg)) membership_params
                [1..<MAX_PAGES + 1]) = Inr [demo_p1]"
  by code_simp

lemma collect_pages_no_line:
  assumes "p \<notin> set order" and "\<forall>q pg d. fut q = Inr (pg, d) \<longrightarrow> pg = q"
  shows "filter (\<lambda>l. \<exists>n. l = PageLine p n) (fst (collect_pages fut order out rs))
       = filter (\<lambda>l. \<exists>n. l = PageLine p n) out"
  using assms
proof (induction order arbitrary: out rs)
  case Nil
  show ?case by simp
next
  case (Cons f fs)
  have np: "f \<noteq> p" and rest: "p \<notin> set fs"
    using Cons.prems(1) by auto
  show ?case
  proof (cases "fut f")
    case (Inl e)
    then show ?thesis by simp
  next
    case (Inr r)
    obtain pg data where r: "r = (pg, data)" by (cases r)
    have pg: "pg = f" using Cons.prems(2) Inr r by blast
    show ?thesis
      using Inr r pg np Cons.IH [OF rest Cons.prems(2)]
      by (auto split: sum.splits)
  qed
qed

lemma collect_pages_lines:
  assumes "distinct order" and "p \<in> set order"
    and "\<forall>q pg d. fut q = Inr (pg, d) \<longrightarrow> pg = q"
  shows "filter (\<lambda>l. \<exists>n. l = PageLine p n) (fst (collect_pages fut order out rs))
       = filter (\<lambda>l. \<exists>n. l = PageLine p n) out
         @ (case fut p of
              Inl e \<Rightarrow> []
            | Inr (pg, data) \<Rightarrow>
                (case py_len data of
                   Inl e \<Rightarrow> []
                 | Inr n \<Rightarrow>
                     if py_truthy data
                        \<and> list_all (page_passes fut) (takeWhile (\<lambda>q. q \<noteq> p) order)
                     then [PageLine p n] else []))"
  using assms(1,2)
proof (induction order arbitrary: out rs)
  case Nil
  then show ?case by simp
next
  case (Cons f fs)
  note echo = assms(3)
  show ?case
  proof (cases "f = p")
    case True
    then have rest: "p \<notin> set fs"
      using Cons.prems(1) by simp
    show ?thesis
    proof (cases "fut p")
      case (Inl e)
      then show ?thesis using True by simp
    next
      case (Inr r)
      obtain pg data where r: "r = (pg, data)" by (cases r)
      have pg: "pg = p" using echo Inr r by blast
      show ?thesis
        using True Inr r pg collect_pages_no_line [OF rest echo]
        by (auto split: sum.splits)
    qed
  next
    case False
    then have mem: "p \<in> set fs" and d: "distinct fs"
      using Cons.prems by auto
    show ?thesis
    proof (cases "fut f")
      case (Inl e)
      then show ?thesis using False by (auto simp: page_passes_def split: sum.splits prod.splits)
    next
      case (Inr r)
      obtain pg data where r: "r = (pg, data)" by (cases r)
      have pg: "pg = f" using echo Inr r by blast
      show ?thesis
        using False Inr r pg Cons.IH [OF d mem]
        by (auto simp: page_passes_def split: sum.splits prod.splits)
    qed
  qed
qed

lemma fetch_page_echo: "\<forall>q pg d. fetch_page srv u ps q = Inr (pg, d) \<longrightarrow> pg = q"
  by (auto simp: fetch_page_def split: http_result.splits sum.splits option.splits)

text \<open>
  Claim C6, amended. The loop handles the completed pages in completion order and ends
  at the first one whose handling raises. For every page from 1 to the ceiling whose
  fetch returned a list: exactly one line, with the page number and the number of
  items, is printed for it if the list is not empty and every page that completed
  before it was handled without an exception; no line is printed for it if the list is
  empty, or if a page that completed before it raised. No line is printed for a page
  whose fetch raised.
\<close>

theorem get_all_pages_progress:
  assumes "mset order = mset [1..<MAX_PAGES + 1]"
    and "p \<in> {1..MAX_PAGES}"
  shows "(\<forall>items. fetch_page srv u ps p = Inr (p, JArr items)
            \<longrightarrow> filter (\<lambda>l. \<exists>n. l = PageLine p n) (printed (get_all_pages srv u ps order))
                  = (if items \<noteq> []
                        \<and> list_all (page_passes (fetch_page srv u ps)) (takeWhile (\<lambda>q. q \<noteq> p) order)
                     then [PageLine p (length items)] else []))
       \<and> (\<forall>e. fetch_page srv u ps p = Inl e
            \<longrightarrow> filter (\<lambda>l. \<exists>n. l = PageLine p n) (printed (get_all_pages srv u ps order)) = [])"
proof -
  have s: "set order = {1..MAX_PAGES}" and d: "distinct order"
    using order_set [OF assms(1)] by simp_all
  have mem: "p \<in> set order"
    using s assms(2) by simp
  note lines = collect_pages_lines [OF d mem fetch_page_echo, of srv u ps "[]" "[]"]
  have a: "filter (\<lambda>l. \<exists>n. l = PageLine p n) (printed (get_all_pages srv u ps order))
             = (if items \<noteq> []
                   \<and> list_all (page_passes (fetch_page srv u ps)) (takeWhile (\<lambda>q. q \<noteq> p) order)
                then [PageLine p (length items)] else [])"
    if "fetch_page srv u ps p = Inr (p, JArr items)" for items
    using lines that by (simp add: get_all_pages_fields)
  have b: "filter (\<lambda>l. \<exists>n. l = PageLine p n) (printed (get_all_pages srv u ps order)) = []"
    if "fetch_page srv u ps p = Inl e" for e
    using lines that by (simp add: get_all_pages_fields)
  show ?thesis using a b by blast
qed

theorem get_all_pages_progress_witness:
  "filter (\<lambda>l. \<exists>n. l = PageLine 1 n)
     (printed (get_all_pages broken_srv (ProjectsUrl (base demo_cfg)) membership_params
                 [1..<MAX_PAGES + 1])) = [PageLine 1 2]
   \<and> filter (\<lambda>l. \<exists>n. l = PageLine 1 n)
     (printed (get_all_pages broken_srv (ProjectsUrl (base demo_cfg)) membership_params
                 (rev [1..<MAX_PAGES + 1]))) = []
   \<and> filter (\<lambda>l. \<exists>n. l = PageLine 3 n)
     (printed (get_all_pages broken_srv (ProjectsUrl (base demo_cfg)) membership_params
                 [1..<MAX_PAGES + 1])) = []
   \<and> filter (\<lambda>l. \<exists>n. l = PageLine 7 n)
     (printed (get_all_pages broken_srv (ProjectsUrl (base demo_cfg)) membership_params
                 [1..<MAX_PAGES + 1])) = []"
proof -
  let ?fut = "fetch_page broken_srv (ProjectsUrl (base demo_cfg)) membership_params"
  have o1: "mset [1..<MAX_PAGES + 1] = mset [1..<MAX_PAGES + 1]"
    by simp
  have o2: "mset (rev [1..<MAX_PAGES + 1]) = mset [1..<MAX_PAGES + 1]"
    by simp
  have p1: "(1::nat) \<in> {1..MAX_PAGES}" and p3: "(3::nat) \<in> {1..MAX_PAGES}"
    and p7: "(7::nat) \<in> {1..MAX_PAGES}"
    by (simp_all add: MAX_PAGES_def)
  have f1: "?fut 1 = Inr (1, JArr [demo_p1, demo_p2])"
    using broken_srv_others [of 1] by (simp add: demo_pages_def)
  have f3: "?fut 3 = Inr (3, JArr [])"
    using broken_srv_others [of 3] by (simp add: demo_pages_def)
  have f7: "?fut 7 = Inl RequestException"
    by (simp add: fetch_page_def broken_srv_def page_request_def update_conv')
  have first: "list_all (page_passes ?fut) (takeWhile (\<lambda>q. q \<noteq> 1) [1..<MAX_PAGES + 1])"
    by code_simp
  have late: "\<not> list_all (page_passes ?fut) (takeWhile (\<lambda>q. q \<noteq> 1) (rev [1..<MAX_PAGES + 1]))"
    by code_simp
  have a: "filter (\<lambda>l. \<exists>n. l = PageLine 1 n)
     (printed (get_all_pages broken_srv (ProjectsUrl (base demo_cfg)) membership_params
                 [1..<MAX_PAGES + 1])) = [PageLine 1 2]"
    using get_all_pages_progress [OF o1 p1] f1 first by simp
  have b: "filter (\<lambda>l. \<exists>n. l = PageLine 1 n)
     (printed (get_all_pages broken_srv (ProjectsUrl (base demo_cfg)) membership_params
                 (rev [1..<MAX_PAGES + 1]))) = []"
    using get_all_pages_progress [OF o2 p1] f1 late by simp
  have c: "filter (\<lambda>l. \<exists>n. l = PageLine 3 n)
     (printed (get_all_pages broken_srv (ProjectsUrl (base demo_cfg)) membership_params
                 [1..<MAX_PAGES + 1])) = []"
    using get_all_pages_progress [OF o1 p3] f3 by simp
  have d: "filter (\<lambda>l. \<exists>n. l = PageLine 7 n)
     (printed (get_all_pages broken_srv (ProjectsUrl (base demo_cfg)) membership_params
                 [1..<MAX_PAGES + 1])) = []"
    using get_all_pages_progress [OF o1 p7] f7 by simp
  show ?thesis using a b c d by blast
qed

text \<open>
  The claim as stated, one line for each of the 200 completed pages, fails: with two
  non-empty pages and 198 empty ones, all fetched, two lines are printed.
\<close>

theorem get_all_pages_progress_counterexample:
  "outcome (fetch_projects demo_cfg demo_srv [1..<MAX_PAGES + 1])
     = Inr [demo_p1, demo_p2, demo_p3, demo_p4]
   \<and> length (sent (fetch_projects demo_cfg demo_srv [1..<MAX_PAGES + 1])) = 200
   \<and> printed (fetch_projects demo_cfg demo_srv [1..<MAX_PAGES + 1]) = [PageLine 1 2, PageLine 2 2]"
  by code_simp

text \<open>
  Claim C7. The tasks submitted by \<open>get_all_pages\<close> are the fetches of the pages 1 to
  \<open>MAX_PAGES\<close>, one task per page number, whatever the server answers and whatever the
  completion order; no request for a page after \<open>MAX_PAGES\<close> is sent. When the listing
  goes on after the ceiling (page \<open>MAX_PAGES + 1\<close> is not empty) and the pages up to the
  ceiling answer with lists, the call returns the items of the pages 1 to \<open>MAX_PAGES\<close>
  and raises nothing; and two servers that agree on the pages 1 to \<open>MAX_PAGES\<close> give the
  same run, so nothing after the ceiling is seen.
\<close>

theorem get_all_pages_ceiling:
  "sent (get_all_pages srv u ps order) = map (page_request u ps) [1..<MAX_PAGES + 1]
   \<and> distinct (sent (get_all_pages srv u ps order))
   \<and> length (sent (get_all_pages srv u ps order)) = MAX_PAGES
   \<and> (\<forall>q. MAX_PAGES < q \<longrightarrow> page_request u ps q \<notin> set (sent (get_all_pages srv u ps order)))
   \<and> (mset order = mset [1..<MAX_PAGES + 1]
        \<and> (\<forall>p\<in>{1..MAX_PAGES}. srv (page_request u ps p) = Response 200 (Some (JArr (pages p))))
        \<and> srv (page_request u ps (MAX_PAGES + 1)) = Response 200 (Some (JArr extra))
        \<and> extra \<noteq> []
      \<longrightarrow> (\<exists>rs. outcome (get_all_pages srv u ps order) = Inr rs
                \<and> mset rs = mset (concat (map pages [1..<MAX_PAGES + 1]))))
   \<and> (mset order = mset [1..<MAX_PAGES + 1]
        \<and> (\<forall>p\<in>{1..MAX_PAGES}. srv' (page_request u ps p) = srv (page_request u ps p))
      \<longrightarrow> get_all_pages srv' u ps order = get_all_pages srv u ps order)"
proof -
  let ?sent = "sent (get_all_pages srv u ps order)"
  have s: "?sent = map (page_request u ps) [1..<MAX_PAGES + 1]"
    by (rule get_all_pages_fields)
  have inj: "inj_on (page_request u ps) A" for A
    by (rule inj_onI) (rule page_request_inj)
  have d: "distinct ?sent"
    unfolding s by (simp only: distinct_map distinct_upt inj simp_thms)
  have l: "length ?sent = MAX_PAGES"
    unfolding s by simp
  have beyond: "page_request u ps q \<notin> set ?sent" if "MAX_PAGES < q" for q
  proof
    assume "page_request u ps q \<in> set ?sent"
    then obtain p where "p \<in> set [1..<MAX_PAGES + 1]" and "page_request u ps q = page_request u ps p"
      unfolding s by auto
    then show False
      using that page_request_inj [of u ps q p] by simp
  qed
  have res: "\<exists>rs. outcome (get_all_pages srv u ps order) = Inr rs
                \<and> mset rs = mset (concat (map pages [1..<MAX_PAGES + 1]))"
    if "mset order = mset [1..<MAX_PAGES + 1]"
      and "\<forall>p\<in>{1..MAX_PAGES}. srv (page_request u ps p) = Response 200 (Some (JArr (pages p)))"
  proof -
    have "set order = {1..MAX_PAGES}"
      using that(1) by (rule order_set)
    then have "outcome (get_all_pages srv u ps order) = Inr (concat (map pages order))"
      using that(2) by (intro get_all_pages_ok) simp
    then show ?thesis
      using mset_concat_perm [OF that(1), of pages] by simp
  qed
  have same: "get_all_pages srv' u ps order = get_all_pages srv u ps order"
    if "mset order = mset [1..<MAX_PAGES + 1]"
      and "\<forall>p\<in>{1..MAX_PAGES}. srv' (page_request u ps p) = srv (page_request u ps p)"
  proof -
    have "set order = {1..MAX_PAGES}"
      using that(1) by (rule order_set)
    then have "\<forall>p\<in>set order. fetch_page srv' u ps p = fetch_page srv u ps p"
      using that(2) by (simp add: fetch_page_def)
    then have "collect_pages (fetch_page srv' u ps) order [] []
             = collect_pages (fetch_page srv u ps) order [] []"
      by (rule collect_pages_cong)
    then show ?thesis
      by (simp add: get_all_pages_def)
  qed
  show ?thesis
    using s d l beyond res same by blast
qed

lemma endless_srv_page:
  "endless_srv (page_request u ps p) = Response 200 (Some (JArr (endless_pages p)))"
  by (simp add: endless_srv_def page_request_def update_conv')

theorem get_all_pages_ceiling_witness:
  "page_request (ProjectsUrl (base demo_cfg)) membership_params 201
     \<notin> set (sent (get_all_pages endless_srv (ProjectsUrl (base demo_cfg)) membership_params
                     (rev [1..<MAX_PAGES + 1])))
   \<and> (\<exists>rs. outcome (get_all_pages endless_srv (ProjectsUrl (base demo_cfg)) membership_params
                       (rev [1..<MAX_PAGES + 1])) = Inr rs
          \<and> mset rs = mset (concat (map endless_pages [1..<MAX_PAGES + 1])))
   \<and> get_all_pages capped_srv (ProjectsUrl (base demo_cfg)) membership_params (rev [1..<MAX_PAGES + 1])
       = get_all_pages endless_srv (ProjectsUrl (base demo_cfg)) membership_params (rev [1..<MAX_PAGES + 1])"
proof -
  note t = get_all_pages_ceiling
             [of endless_srv "ProjectsUrl (base demo_cfg)" membership_params
                 "rev [1..<MAX_PAGES + 1]" endless_pages "endless_pages 201" capped_srv]
  have big: "MAX_PAGES < 201"
    by (simp add: MAX_PAGES_def)
  have ord: "mset (rev [1..<MAX_PAGES + 1]) = mset [1..<MAX_PAGES + 1]"
    by simp
  have ok: "\<forall>p\<in>{1..MAX_PAGES}. endless_srv (page_request (ProjectsUrl (base demo_cfg)) membership_params p)
              = Response 200 (Some (JArr (endless_pages p)))"
    by (simp add: endless_srv_page)
  have next_page: "endless_srv (page_request (ProjectsUrl (base demo_cfg)) membership_params (MAX_PAGES + 1))
              = Response 200 (Some (JArr (endless_pages 201)))"
    by (simp add: endless_srv_page MAX_PAGES_def)
  have ne: "endless_pages 201 \<noteq> []"
    by (simp add: endless_pages_def)
  have agree: "\<forall>p\<in>{1..MAX_PAGES}. capped_srv (page_request (ProjectsUrl (base demo_cfg)) membership_params p)
              = endless_srv (page_request (ProjectsUrl (base demo_cfg)) membership_params p)"
    by (simp add: capped_srv_def endless_srv_def page_request_def update_conv' MAX_PAGES_def)
  have a: "page_request (ProjectsUrl (base demo_cfg)) membership_params 201
     \<notin> set (sent (get_all_pages endless_srv (ProjectsUrl (base demo_cfg)) membership_params
                     (rev [1..<MAX_PAGES + 1])))"
    using t big by blast
  have b: "\<exists>rs. outcome (get_all_pages endless_srv (ProjectsUrl (base demo_cfg)) membership_params
                       (rev [1..<MAX_PAGES + 1])) = Inr rs
          \<and> mset rs = mset (concat (map endless_pages [1..<MAX_PAGES + 1]))"
    using t ord ok next_page ne by blast
  have c: "get_all_pages capped_srv (ProjectsUrl (base demo_cfg)) membership_params (rev [1..<MAX_PAGES + 1])
       = get_all_pages endless_srv (ProjectsUrl (base demo_cfg)) membership_params (rev [1..<MAX_PAGES + 1])"
    using t ord agree by blast
  show ?thesis using a b c by blast
qed

section \<open>Properties of the probe loop\<close>

lemma submit_ids_ok:
  assumes "\<forall>p\<in>set ps. has_key p ''id''"
  shows "snd (submit_ids ps) = None"
    and "length (fst (submit_ids ps)) = length ps"
    and "\<forall>i<length ps. py_getitem (ps ! i) ''id'' = Inr (fst (submit_ids ps) ! i)"
  using assms
proof (induction ps)
  case Nil
  {
    case 1 show ?case by simp
  next
    case 2 show ?case by simp
  next
    case 3 show ?case by simp
  }
next
  case (Cons p ps)
  {
    case 1
    then show ?case using Cons.IH(1) by (auto simp: has_key_def Let_def split: sum.splits)
  next
    case 2
    then show ?case using Cons.IH(2) by (auto simp: has_key_def Let_def split: sum.splits)
  next
    case 3
    then show ?case using Cons.IH(3) by (auto simp: has_key_def Let_def nth_Cons split: sum.splits nat.splits)
  }
qed

lemma check_all_ok:
  assumes "\<forall>i\<in>set order. has_key (ps ! i) ''path_with_namespace''"
  shows "snd (check_all fut ps order c out cm)
           = Inr (cm @ map (\<lambda>i. ps ! i) (filter (\<lambda>i. fut i = Inr True) order))"
    and "length (filter is_failed (fst (check_all fut ps order c out cm)))
           = length (filter is_failed out) + length (filter (\<lambda>i. isl (fut i)) order)"
    and "length (fst (check_all fut ps order c out cm)) = length out + length order"
  using assms
  by (induction order arbitrary: c out cm)
     (auto simp: Let_def has_key_def failed_line_def split: sum.splits)

lemma perm_index_filter:
  assumes "mset order = mset [0..<length ps]"
  shows "mset (map (\<lambda>i. ps ! i) (filter (\<lambda>i. P (ps ! i)) order)) = mset (filter P ps)"
proof -
  have "mset (map (\<lambda>i. ps ! i) (filter (\<lambda>i. P (ps ! i)) order))
      = image_mset (\<lambda>i. ps ! i) (filter_mset (\<lambda>i. P (ps ! i)) (mset order))"
    by simp
  also have "\<dots> = mset (map (\<lambda>i. ps ! i) (filter (\<lambda>i. P (ps ! i)) [0..<length ps]))"
    using assms by simp
  also have "map (\<lambda>i. ps ! i) (filter (\<lambda>i. P (ps ! i)) [0..<length ps])
           = filter P (map (\<lambda>i. ps ! i) [0..<length ps])"
    by (simp add: filter_map comp_def)
  also have "map (\<lambda>i. ps ! i) [0..<length ps] = ps"
    by (rule map_nth)
  finally show ?thesis .
qed

lemma perm_index_count:
  assumes "mset order = mset [0..<length ps]"
  shows "length (filter (\<lambda>i. P (ps ! i)) order) = length (filter P ps)"
proof -
  have "length (filter (\<lambda>i. P (ps ! i)) order)
      = size (mset (map (\<lambda>i. ps ! i) (filter (\<lambda>i. P (ps ! i)) order)))"
    by (simp only: size_mset length_map)
  also have "\<dots> = size (mset (filter P ps))"
    by (simp only: perm_index_filter [OF assms])
  also have "\<dots> = length (filter P ps)"
    by (simp only: size_mset)
  finally show ?thesis .
qed

lemma check_projects_ok:
  assumes "\<forall>p\<in>set ps. has_key p ''id'' \<and> has_key p ''path_with_namespace''"
    and "mset order = mset [0..<length ps]"
  shows "outcome (check_projects cfg srv ps order)
           = Inr (map (\<lambda>i. ps ! i) (filter (\<lambda>i. probe cfg srv (ps ! i) = Inr True) order))"
    and "length (filter is_failed (printed (check_projects cfg srv ps order)))
           = length (filter (\<lambda>i. isl (probe cfg srv (ps ! i))) order)"
    and "length (printed (check_projects cfg srv ps order)) = length ps"
proof -
  let ?ids = "fst (submit_ids ps)"
  let ?futures = "map (has_user_commits cfg srv) ?ids"
  let ?fut = "\<lambda>i. snd (?futures ! i)"
  have ids: "\<forall>p\<in>set ps. has_key p ''id''"
    using assms(1) by simp
  have none: "snd (submit_ids ps) = None"
    and len: "length ?ids = length ps"
    and nth: "\<forall>i<length ps. py_getitem (ps ! i) ''id'' = Inr (?ids ! i)"
    using submit_ids_ok [OF ids] by simp_all
  have range: "set order = {0..<length ps}"
    using mset_eq_setD [OF assms(2)] by simp
  have fut: "?fut i = probe cfg srv (ps ! i)" if "i \<in> set order" for i
    using that range nth len by (simp add: probe_def)
  have paths: "\<forall>i\<in>set order. has_key (ps ! i) ''path_with_namespace''"
    using assms(1) range by simp
  have run: "check_projects cfg srv ps order
           = \<lparr>sent = concat (map fst ?futures),
              printed = fst (check_all ?fut ps order 0 [] []),
              outcome = snd (check_all ?fut ps order 0 [] [])\<rparr>"
    using none by (simp add: check_projects_def Let_def)
  have f1: "filter (\<lambda>i. ?fut i = Inr True) order
          = filter (\<lambda>i. probe cfg srv (ps ! i) = Inr True) order"
    by (rule filter_cong) (simp_all add: fut)
  have f2: "filter (\<lambda>i. isl (?fut i)) order = filter (\<lambda>i. isl (probe cfg srv (ps ! i))) order"
    by (rule filter_cong) (simp_all add: fut)
  show "outcome (check_projects cfg srv ps order)
           = Inr (map (\<lambda>i. ps ! i) (filter (\<lambda>i. probe cfg srv (ps ! i) = Inr True) order))"
    unfolding run using check_all_ok(1) [OF paths, of ?fut 0 "[]" "[]"] f1 by simp
  show "length (filter is_failed (printed (check_projects cfg srv ps order)))
           = length (filter (\<lambda>i. isl (probe cfg srv (ps ! i))) order)"
    unfolding run using check_all_ok(2) [OF paths, of ?fut 0 "[]" "[]"] f2 by simp
  show "length (printed (check_projects cfg srv ps order)) = length ps"
    unfolding run using check_all_ok(3) [OF paths, of ?fut 0 "[]" "[]"] mset_eq_length [OF assms(2)]
    by simp
qed

text \<open>
  Claim C3. Take \<open>M\<close> projects, each a record with an identifier and a display path
  as the data model has it, of which the probe returns true for exactly \<open>J\<close> and raises
  for exactly \<open>K\<close>. For every completion order the probe loop ends without an
  exception; the matched list holds the projects whose probe returned true, in
  completion order, so exactly \<open>J\<close> records and none whose probe raised; one line is
  printed per project, \<open>K\<close> of them failure lines.
\<close>

theorem check_projects_tolerates_failures:
  assumes "\<forall>p\<in>set ps. has_key p ''id'' \<and> has_key p ''path_with_namespace''"
    and "mset order = mset [0..<length ps]"
    and "length (filter (\<lambda>p. probe cfg srv p = Inr True) ps) = J"
    and "length (filter (\<lambda>p. isl (probe cfg srv p)) ps) = K"
  shows "\<exists>committed. outcome (check_projects cfg srv ps order) = Inr committed
       \<and> committed = map (\<lambda>i. ps ! i) (filter (\<lambda>i. probe cfg srv (ps ! i) = Inr True) order)
       \<and> mset committed = mset (filter (\<lambda>p. probe cfg srv p = Inr True) ps)
       \<and> length committed = J
       \<and> (\<forall>p\<in>set committed. \<not> isl (probe cfg srv p))
       \<and> length (filter is_failed (printed (check_projects cfg srv ps order))) = K
       \<and> length (printed (check_projects cfg srv ps order)) = length ps"
proof -
  let ?c = "map (\<lambda>i. ps ! i) (filter (\<lambda>i. probe cfg srv (ps ! i) = Inr True) order)"
  note ok = check_projects_ok [OF assms(1,2), of cfg srv]
  have m: "mset ?c = mset (filter (\<lambda>p. probe cfg srv p = Inr True) ps)"
    using assms(2) by (rule perm_index_filter)
  have l: "length ?c = J"
    using perm_index_count [OF assms(2), of "\<lambda>p. probe cfg srv p = Inr True"] assms(3) by simp
  have e: "\<forall>p\<in>set ?c. \<not> isl (probe cfg srv p)"
    by auto
  have k: "length (filter is_failed (printed (check_projects cfg srv ps order))) = K"
    using ok(2) perm_index_count [OF assms(2), of "\<lambda>p. isl (probe cfg srv p)"] assms(4) by simp
  show ?thesis
    using ok(1) m l e k ok(3) by blast
qed

theorem check_projects_tolerates_failures_witness:
  "outcome (check_projects demo_cfg demo_srv [demo_p1, demo_p2, demo_p3, demo_p4] [2, 0, 3, 1])
     = Inr [demo_p3, demo_p1]
   \<and> length (filter is_failed
        (printed (check_projects demo_cfg demo_srv [demo_p1, demo_p2, demo_p3, demo_p4] [2, 0, 3, 1]))) = 1"
proof -
  have wf: "\<forall>p\<in>set [demo_p1, demo_p2, demo_p3, demo_p4].
              has_key p ''id'' \<and> has_key p ''path_with_namespace''"
    by (simp add: has_key_def demo_p1_def demo_p2_def demo_p3_def demo_p4_def)
  have ord: "mset [2, 0, 3, 1] = mset [0..<length [demo_p1, demo_p2, demo_p3, demo_p4]]"
    by (simp add: upt_conv_Cons numeral_2_eq_2 numeral_3_eq_3 add_mset_commute)
  have j: "length (filter (\<lambda>p. probe demo_cfg demo_srv p = Inr True)
             [demo_p1, demo_p2, demo_p3, demo_p4]) = 2"
    by code_simp
  have k: "length (filter (\<lambda>p. isl (probe demo_cfg demo_srv p))
             [demo_p1, demo_p2, demo_p3, demo_p4]) = 1"
    by code_simp
  have c: "map (\<lambda>i. [demo_p1, demo_p2, demo_p3, demo_p4] ! i)
             (filter (\<lambda>i. probe demo_cfg demo_srv ([demo_p1, demo_p2, demo_p3, demo_p4] ! i) = Inr True)
                [2, 0, 3, 1]) = [demo_p3, demo_p1]"
    by code_simp
  show ?thesis
    using check_projects_tolerates_failures [OF wf ord j k] unfolding c by blast
qed

section \<open>Properties of the sort and the report\<close>

lemma insort_key_least:
  assumes "\<forall>y\<in>set ys. f x \<le> f y"
  shows "insort_key f x ys = x # ys"
  using assms by (cases ys) simp_all

lemma insort_key_past_least:
  assumes "\<forall>a\<in>set as. f a < f x"
  shows "insort_key f x (as @ bs) = as @ insort_key f x bs"
  using assms by (induction as) auto

lemma sort_key_least_first:
  fixes f :: "'a \<Rightarrow> 'k::linorder"
  assumes "\<forall>x. m \<le> f x"
  shows "sort_key f xs = filter (\<lambda>x. f x = m) xs @ sort_key f (filter (\<lambda>x. f x \<noteq> m) xs)"
proof (induction xs)
  case Nil
  show ?case by simp
next
  case (Cons x xs)
  show ?case
  proof (cases "f x = m")
    case True
    then have "insort_key f x (sort_key f xs) = x # sort_key f xs"
      using assms by (intro insort_key_least) simp
    then show ?thesis using True Cons.IH by simp
  next
    case False
    then have "\<forall>a\<in>set (filter (\<lambda>x. f x = m) xs). f a < f x"
      using assms by (auto simp: less_le)
    then show ?thesis
      using False Cons.IH by (simp add: insort_key_past_least)
  qed
qed

lemma sort_desc_empty_last:
  "rev (sort_key str_key (rev ps))
     = rev (sort_key str_key (filter (\<lambda>p. str_key p \<noteq> []) (rev ps)))
       @ filter (\<lambda>p. str_key p = []) ps"
proof -
  have "\<forall>p. [] \<le> str_key p" by simp
  then have "sort_key str_key (rev ps)
      = filter (\<lambda>p. str_key p = []) (rev ps)
        @ sort_key str_key (filter (\<lambda>p. str_key p \<noteq> []) (rev ps))"
    by (rule sort_key_least_first)
  then show ?thesis by (simp add: rev_filter)
qed

lemma sort_keys_length:
  assumes "sort_keys c = Inr ks"
  shows "length ks = length c"
  using assms by (induction c arbitrary: ks) (auto split: sum.splits)

lemma sort_keys_strings:
  assumes "\<forall>q\<in>set c. \<exists>s. sort_key_of q = Inr (JStr s)"
  shows "sort_keys c = Inr (map (\<lambda>p. JStr (str_key p)) c)"
  using assms by (induction c) (auto simp: str_key_def)

lemma insort_pair_strings:
  "insort_pair (JStr (str_key x), x) (map (\<lambda>p. (JStr (str_key p), p)) ys)
     = map (\<lambda>p. (JStr (str_key p), p)) (insort_key str_key x ys)"
  by (induction ys) auto

lemma sort_pairs_strings:
  "sort_pairs (map (\<lambda>p. (JStr (str_key p), p)) xs)
     = map (\<lambda>p. (JStr (str_key p), p)) (sort_key str_key xs)"
  by (induction xs) (simp_all add: sort_pairs_def insort_pair_strings)

lemma comparable_strings: "comparable (map (\<lambda>p. JStr (str_key p)) c)"
  by (simp add: comparable_def list_all_iff)

lemma sort_committed_strings:
  assumes "\<forall>q\<in>set c. \<exists>s. sort_key_of q = Inr (JStr s)"
  shows "sort_committed c
           = Inr (if length c \<le> 1 then c else rev (sort_key str_key (rev c)))"
proof -
  let ?g = "\<lambda>p. (JStr (str_key p), p)"
  have "zip (map (\<lambda>p. JStr (str_key p)) c) c = map ?g c"
    by (induction c) simp_all
  then have "rev (zip (map (\<lambda>p. JStr (str_key p)) c) c) = map ?g (rev c)"
    by (simp add: rev_map)
  then have "map snd (rev (sort_pairs (rev (zip (map (\<lambda>p. JStr (str_key p)) c) c))))
           = rev (sort_key str_key (rev c))"
    by (simp add: sort_pairs_strings rev_map comp_def)
  then show ?thesis
    using sort_keys_strings [OF assms] comparable_strings [of c]
    by (simp add: sort_committed_def)
qed

lemma sort_key_of_dict:
  assumes "sort_key_of q = Inr k"
  shows "\<exists>kvs. q = JObj kvs"
  using assms by (cases q) (simp_all add: sort_key_of_def)

lemma report_row_dict:
  "(\<exists>k. report_row (JObj kvs) = Inl (KeyError k)) \<or> (\<exists>r. report_row (JObj kvs) = Inr r)"
  by (simp add: report_row_def split: option.splits)

lemma write_rows_key_error:
  assumes "\<forall>q\<in>set xs. \<exists>kvs. q = JObj kvs"
    and "p \<in> set xs"
    and "report_row p = Inl (KeyError k0)"
  shows "\<exists>rows k. write_rows xs rows0 = (rows, Some (KeyError k))
           \<and> length rows < length rows0 + length xs"
  using assms
proof (induction xs arbitrary: rows0)
  case Nil
  then show ?case by simp
next
  case (Cons x xs)
  obtain kvs where x: "x = JObj kvs"
    using Cons.prems(1) by auto
  consider k where "report_row x = Inl (KeyError k)" | r where "report_row x = Inr r"
    using report_row_dict [of kvs] x by blast
  then show ?case
  proof cases
    case 1
    then show ?thesis by simp
  next
    case 2
    then have "p \<in> set xs"
      using Cons.prems(2,3) by auto
    then obtain rows k where "write_rows xs (rows0 @ [r]) = (rows, Some (KeyError k))"
        and "length rows < length (rows0 @ [r]) + length xs"
      using Cons.IH [of "rows0 @ [r]"] Cons.prems(1,3) by auto
    then show ?thesis using 2 by simp
  qed
qed

text \<open>
  Claim C9. Let \<open>p\<close> be a matched record without the last-activity field, among
  matched records whose last-activity values, where present, are strings. The sort
  key of \<open>p\<close> is the empty string and the sort succeeds: the sorted list is a
  permutation of the matched list that ends with the records of empty key, \<open>p\<close> among
  them, after all records with a non-empty key. Building the row of \<open>p\<close> raises
  \<^verbatim>\<open>KeyError\<close>, and writing the report of the sorted list ends with a \<^verbatim>\<open>KeyError\<close>,
  with fewer data rows written than there are records.
\<close>

theorem missing_last_activity_sorts_last_then_key_error:
  assumes "p \<in> set committed"
    and "py_getitem p ''last_activity_at'' = Inl (KeyError ''last_activity_at'')"
    and "\<forall>q\<in>set committed. \<exists>s. sort_key_of q = Inr (JStr s)"
  shows "sort_key_of p = Inr (JStr [])
       \<and> report_row p = Inl (KeyError ''last_activity_at'')
       \<and> (\<exists>ordered front rows k.
             sort_committed committed = Inr ordered
           \<and> mset ordered = mset committed
           \<and> ordered = front @ filter (\<lambda>q. str_key q = []) committed
           \<and> (\<forall>q\<in>set front. str_key q \<noteq> [])
           \<and> p \<in> set (filter (\<lambda>q. str_key q = []) committed)
           \<and> write_report ordered = (rows, Some (KeyError k))
           \<and> length rows \<le> length committed)"
proof -
  obtain kvs where p: "p = JObj kvs" and missing: "map_of kvs ''last_activity_at'' = None"
    using assms(2) by (cases p) (auto split: option.splits)
  have key: "sort_key_of p = Inr (JStr [])"
    using p missing by (simp add: sort_key_of_def)
  have row: "report_row p = Inl (KeyError ''last_activity_at'')"
    using assms(2) by (simp add: report_row_def)
  have last: "p \<in> set (filter (\<lambda>q. str_key q = []) committed)"
    using assms(1) key by (simp add: str_key_def)
  let ?front = "if length committed \<le> 1 then []
                else rev (sort_key str_key (filter (\<lambda>q. str_key q \<noteq> []) (rev committed)))"
  let ?ordered = "?front @ filter (\<lambda>q. str_key q = []) committed"
  have single: "filter (\<lambda>q. str_key q = []) committed = committed" if "length committed \<le> 1"
  proof -
    have "committed = [p]"
      using that assms(1) by (cases committed) auto
    then show ?thesis using key by (simp add: str_key_def)
  qed
  have sorted_eq: "sort_committed committed = Inr ?ordered"
    using single by (simp add: sort_committed_strings [OF assms(3)] sort_desc_empty_last)
  have perm: "mset ?ordered = mset committed"
  proof (cases "length committed \<le> 1")
    case True
    then show ?thesis using single by simp
  next
    case False
    then have "?ordered = rev (sort_key str_key (rev committed))"
      by (simp add: sort_desc_empty_last)
    then show ?thesis by simp
  qed
  have front: "\<forall>q\<in>set ?front. str_key q \<noteq> []"
    by auto
  have dicts: "\<forall>q\<in>set ?ordered. \<exists>kvs. q = JObj kvs"
  proof
    fix q assume "q \<in> set ?ordered"
    then have "q \<in> set committed"
      using perm by (metis mset_eq_setD)
    then show "\<exists>kvs. q = JObj kvs"
      using assms(3) sort_key_of_dict by blast
  qed
  have mem: "p \<in> set ?ordered"
    using last by simp
  obtain rows k where rows: "write_report ?ordered = (rows, Some (KeyError k))"
      and "length rows < 1 + length ?ordered"
    using write_rows_key_error [OF dicts mem row, of "[[JStr ''last_activity'', JStr ''project'', JStr ''url'']]"]
    by (auto simp: write_report_def)
  moreover have "length ?ordered = length committed"
    using perm by (metis mset_eq_length)
  ultimately have len: "length rows \<le> length committed"
    by simp
  show ?thesis
    using key row sorted_eq perm front last rows len by blast
qed

theorem missing_last_activity_sorts_last_then_key_error_witness:
  "sort_key_of demo_p4 = Inr (JStr [])
   \<and> sort_committed [demo_p1, demo_p4, demo_p3] = Inr [demo_p3, demo_p1, demo_p4]
   \<and> (\<exists>rows k. write_report [demo_p3, demo_p1, demo_p4] = (rows, Some (KeyError k)))"
proof -
  have mem: "demo_p4 \<in> set [demo_p1, demo_p4, demo_p3]"
    by simp
  have missing: "py_getitem demo_p4 ''last_activity_at'' = Inl (KeyError ''last_activity_at'')"
    by (simp add: demo_p4_def)
  have strs: "\<forall>q\<in>set [demo_p1, demo_p4, demo_p3]. \<exists>s. sort_key_of q = Inr (JStr s)"
    by (simp add: sort_key_of_def demo_p1_def demo_p4_def demo_p3_def)
  have ev: "sort_committed [demo_p1, demo_p4, demo_p3] = Inr [demo_p3, demo_p1, demo_p4]"
    by code_simp
  show ?thesis
    using missing_last_activity_sorts_last_then_key_error [OF mem missing strs] ev by auto
qed

text \<open>The file of that example: the header and the two rows before the failing record.\<close>

lemma report_demo:
  "write_report [demo_p3, demo_p1, demo_p4]
     = ([[JStr ''last_activity'', JStr ''project'', JStr ''url''],
         [JStr ''2024-03-20T17:45:00Z'', JStr ''group/three'', JStr ''https://gitlab.com/group/three''],
         [JStr ''2024-01-05T10:00:00Z'', JStr ''group/one'', JStr ''https://gitlab.com/group/one'']],
        Some (KeyError ''last_activity_at''))"
  by code_simp

text \<open>Records whose keys are lists are ordered as Python orders lists.\<close>

lemma sort_committed_list_keys:
  "sort_committed
     [JObj [(''id'', JNum 1), (''last_activity_at'', JArr [JNum 1, JNum 5])],
      JObj [(''id'', JNum 2), (''last_activity_at'', JArr [JNum 2])],
      JObj [(''id'', JNum 3), (''last_activity_at'', JArr [JNum 1])]]
   = Inr [JObj [(''id'', JNum 2), (''last_activity_at'', JArr [JNum 2])],
          JObj [(''id'', JNum 1), (''last_activity_at'', JArr [JNum 1, JNum 5])],
          JObj [(''id'', JNum 3), (''last_activity_at'', JArr [JNum 1])]]"
  by code_simp

lemma sort_committed_unordered_keys:
  "sort_committed
     [JObj [(''id'', JNum 1), (''last_activity_at'', JStr ''2024-01-05T10:00:00Z'')],
      JObj [(''id'', JNum 2), (''last_activity_at'', JNull)]]
   = Inl TypeError"
  by code_simp

section \<open>Identifiers and records across the stages\<close>

lemma check_all_subset:
  assumes "snd (check_all fut ps order c out cm) = Inr res"
  shows "set res \<subseteq> set cm \<union> (\<lambda>i. ps ! i) ` set order"
  using assms
proof (induction order arbitrary: c out cm)
  case Nil
  then show ?case by auto
next
  case (Cons f fs)
  show ?case
  proof (cases "fut f")
    case (Inl e)
    then obtain l where "failed_line (ps ! f) (c + 1) (length ps) e = Inr l"
        and "snd (check_all fut ps fs (c + 1) (out @ [l]) cm) = Inr res"
      using Cons.prems by (auto simp: Let_def split: sum.splits)
    then show ?thesis using Cons.IH by fastforce
  next
    case (Inr b)
    let ?cm = "if b then cm @ [ps ! f] else cm"
    obtain out' where "snd (check_all fut ps fs (c + 1) out' ?cm) = Inr res"
      using Cons.prems Inr by (auto simp: Let_def split: sum.splits if_splits)
    then have "set res \<subseteq> set ?cm \<union> (\<lambda>i. ps ! i) ` set fs"
      by (rule Cons.IH)
    then show ?thesis by (auto split: if_splits)
  qed
qed

lemma check_projects_subset:
  assumes "outcome (check_projects cfg srv ps order) = Inr committed"
    and "mset order = mset [0..<length ps]"
  shows "set committed \<subseteq> set ps"
proof -
  have range: "set order = {0..<length ps}"
    using mset_eq_setD [OF assms(2)] by simp
  obtain fut where "snd (check_all fut ps order 0 [] []) = Inr committed"
    using assms(1) by (auto simp: check_projects_def Let_def split: option.splits)
  then have "set committed \<subseteq> (\<lambda>i. ps ! i) ` set order"
    using check_all_subset by fastforce
  then show ?thesis using range by auto
qed

lemma mset_insort_pair: "mset (insort_pair x ys) = add_mset x (mset ys)"
  by (induction ys) simp_all

lemma mset_sort_pairs: "mset (sort_pairs xs) = mset xs"
  by (induction xs) (simp_all add: sort_pairs_def mset_insort_pair)

lemma sort_committed_perm:
  assumes "sort_committed committed = Inr ordered"
  shows "mset ordered = mset committed"
proof (cases "sort_keys committed")
  case (Inl e)
  then show ?thesis using assms by (simp add: sort_committed_def)
next
  case (Inr ks)
  have "length ks = length committed"
    using Inr by (rule sort_keys_length)
  then have "map snd (zip ks committed) = committed"
    by simp
  then have "mset (map snd (rev (sort_pairs (rev (zip ks committed))))) = mset committed"
    by (metis mset_map mset_rev mset_sort_pairs)
  then show ?thesis
    using assms Inr by (auto simp: sort_committed_def split: if_splits)
qed

text \<open>
  Claim C8, amended. The paginator removes no duplicates, so the identifiers in its
  result are as unique as those the server lists: when every page from 1 to the
  ceiling answers with a list and the identifiers of all listed items are pairwise
  distinct, the identifiers in the result of \<open>get_all_pages\<close> are pairwise distinct,
  for every completion order. The later stages pass the fetched records on unchanged:
  the matched list of the probe loop holds only fetched records, and the sorted list
  is a permutation of the matched list.
\<close>

theorem project_ids_unique_if_listing_unique:
  assumes "\<forall>p\<in>{1..MAX_PAGES}. srv (page_request u ps p) = Response 200 (Some (JArr (pages p)))"
    and "mset order = mset [1..<MAX_PAGES + 1]"
    and "distinct (map (\<lambda>x. py_getitem x ''id'') (concat (map pages [1..<MAX_PAGES + 1])))"
  shows "\<exists>all_projects. outcome (get_all_pages srv u ps order) = Inr all_projects
       \<and> distinct (map (\<lambda>x. py_getitem x ''id'') all_projects)
       \<and> (\<forall>cfg srv' order' committed.
            mset order' = mset [0..<length all_projects]
            \<and> outcome (check_projects cfg srv' all_projects order') = Inr committed
            \<longrightarrow> set committed \<subseteq> set all_projects)
       \<and> (\<forall>committed ordered.
            sort_committed committed = Inr ordered \<longrightarrow> mset ordered = mset committed)"
proof -
  let ?all = "concat (map pages order)"
  have "set order = {1..MAX_PAGES}"
    using assms(2) by (rule order_set)
  then have res: "outcome (get_all_pages srv u ps order) = Inr ?all"
    using assms(1) by (intro get_all_pages_ok) simp
  have "mset ?all = mset (concat (map pages [1..<MAX_PAGES + 1]))"
    using assms(2) by (rule mset_concat_perm)
  then have "mset (map (\<lambda>x. py_getitem x ''id'') ?all)
           = mset (map (\<lambda>x. py_getitem x ''id'') (concat (map pages [1..<MAX_PAGES + 1])))"
    by simp
  then have ids: "distinct (map (\<lambda>x. py_getitem x ''id'') ?all)"
    using assms(3) by (metis mset_eq_imp_distinct_iff)
  show ?thesis
    using res ids check_projects_subset sort_committed_perm by blast
qed

theorem project_ids_unique_if_listing_unique_witness:
  "\<exists>all_projects. outcome (get_all_pages demo_srv (ProjectsUrl (base demo_cfg)) membership_params
                              [1..<MAX_PAGES + 1]) = Inr all_projects
     \<and> all_projects = [demo_p1, demo_p2, demo_p3, demo_p4]
     \<and> distinct (map (\<lambda>x. py_getitem x ''id'') all_projects)
     \<and> set [demo_p3, demo_p1] \<subseteq> set all_projects
     \<and> mset [demo_p3, demo_p1] = mset [demo_p1, demo_p3]"
proof -
  have ok: "\<forall>p\<in>{1..MAX_PAGES}. demo_srv (page_request (ProjectsUrl (base demo_cfg)) membership_params p)
              = Response 200 (Some (JArr (demo_pages p)))"
    by (simp add: demo_srv_page)
  have ord: "mset [1..<MAX_PAGES + 1] = mset [1..<MAX_PAGES + 1]"
    by simp
  have ok': "\<forall>p\<in>set [1..<MAX_PAGES + 1].
               demo_srv (page_request (ProjectsUrl (base demo_cfg)) membership_params p)
                 = Response 200 (Some (JArr (demo_pages p)))"
    by (simp add: demo_srv_page)
  have c: "concat (map demo_pages [1..<MAX_PAGES + 1]) = [demo_p1, demo_p2, demo_p3, demo_p4]"
    by code_simp
  have ids: "distinct (map (\<lambda>x. py_getitem x ''id'') (concat (map demo_pages [1..<MAX_PAGES + 1])))"
    unfolding c by code_simp
  have ev: "outcome (get_all_pages demo_srv (ProjectsUrl (base demo_cfg)) membership_params
              [1..<MAX_PAGES + 1]) = Inr [demo_p1, demo_p2, demo_p3, demo_p4]"
    using get_all_pages_ok(1) [OF ok'] unfolding c .
  have ord2: "mset [2, 0, 3, 1] = mset [0..<length [demo_p1, demo_p2, demo_p3, demo_p4]]"
    by (simp add: upt_conv_Cons numeral_2_eq_2 numeral_3_eq_3 add_mset_commute)
  have probe_run: "outcome (check_projects demo_cfg demo_srv [demo_p1, demo_p2, demo_p3, demo_p4] [2, 0, 3, 1])
          = Inr [demo_p3, demo_p1]"
    by code_simp
  have sorted_run: "sort_committed [demo_p3, demo_p1] = Inr [demo_p3, demo_p1]"
    by code_simp
  obtain all_projects where
      a: "outcome (get_all_pages demo_srv (ProjectsUrl (base demo_cfg)) membership_params
              [1..<MAX_PAGES + 1]) = Inr all_projects"
    and b: "distinct (map (\<lambda>x. py_getitem x ''id'') all_projects)"
    and s: "\<And>cfg srv' order' committed.
            mset order' = mset [0..<length all_projects]
            \<and> outcome (check_projects cfg srv' all_projects order') = Inr committed
            \<Longrightarrow> set committed \<subseteq> set all_projects"
    and m: "\<And>committed ordered.
            sort_committed committed = Inr ordered \<Longrightarrow> mset ordered = mset committed"
    using project_ids_unique_if_listing_unique [OF ok ord ids] by blast
  have eq: "all_projects = [demo_p1, demo_p2, demo_p3, demo_p4]"
    using a ev by simp
  have sub: "set [demo_p3, demo_p1] \<subseteq> set all_projects"
    using s [of "[2, 0, 3, 1]" demo_cfg demo_srv "[demo_p3, demo_p1]"] ord2 probe_run
    unfolding eq by blast
  have "mset [demo_p3, demo_p1] = mset [demo_p3, demo_p1]"
    using m [OF sorted_run] .
  then have perm: "mset [demo_p3, demo_p1] = mset [demo_p1, demo_p3]"
    by simp
  show ?thesis
    using a eq b sub perm by blast
qed

text \<open>
  The claim as stated, identifiers unique in every run, fails when the server lists a
  project on two pages: the result holds it twice.
\<close>

theorem project_ids_duplicated_counterexample:
  "outcome (fetch_projects demo_cfg shifted_srv [1..<MAX_PAGES + 1]) = Inr [demo_p1, demo_p1]"
  by code_simp

end
